theory Spec2Isabelle
  imports Main "HOL-Library.Sublist" "HOL-Library.AList"
begin

section \<open>Python strings\<close>

text \<open>
  A Python \<open>str\<close> is modelled as a \<open>string\<close> whose characters stand for code points
  below 256, one \<open>char\<close> per code point, so that \<open>length\<close>, \<open>find\<close> and slicing count
  what Python counts.
\<close>

text \<open>\<open>s.find(sub)\<close>: the lowest index at which \<open>sub\<close> occurs in \<open>s\<close>, or \<open>-1\<close>.\<close>

fun py_find :: "string \<Rightarrow> string \<Rightarrow> int" where
  "py_find [] sub = (if sub = [] then 0 else - 1)"
| "py_find (c # cs) sub =
     (if prefix sub (c # cs) then 0
      else (let r = py_find cs sub in if r = - 1 then - 1 else r + 1))"

text \<open>
  \<open>s[i:j]\<close>: a negative bound counts from the end, and both bounds are clamped to
  \<open>0 .. len(s)\<close>; the slice is empty when the upper bound is not above the lower one.
\<close>

definition py_slice :: "string \<Rightarrow> int \<Rightarrow> int \<Rightarrow> string" where
  "py_slice s i j =
     (let n = int (length s);
          lo = (if i < 0 then max (i + n) 0 else min i n);
          hi = (if j < 0 then max (j + n) 0 else min j n)
      in take (nat (hi - lo)) (drop (nat lo) s))"

text \<open>
  \<open>str.isspace\<close> on one character: the code points below 256 that Python counts as
  whitespace are 9 to 13, 28 to 32, 133 and 160.
\<close>

definition py_isspace :: "char \<Rightarrow> bool" where
  "py_isspace c =
     (let k = (of_char c :: nat)
      in (9 \<le> k \<and> k \<le> 13) \<or> (28 \<le> k \<and> k \<le> 32) \<or> k = 133 \<or> k = 160)"

text \<open>\<open>s.strip()\<close>: leading and trailing whitespace removed.\<close>

definition py_strip :: "string \<Rightarrow> string" where
  "py_strip s = rev (dropWhile py_isspace (rev (dropWhile py_isspace s)))"

text \<open>\<open>s.endswith(suffix)\<close>.\<close>

definition py_endswith :: "string \<Rightarrow> string \<Rightarrow> bool" where
  "py_endswith s suf = suffix suf s"

section \<open>The version extractor\<close>

text \<open>The two markers \<open>f"<{tag}>"\<close> and \<open>f"</{tag}>"\<close>.\<close>

definition start_tag :: "string \<Rightarrow> string" where
  "start_tag tag = ''<'' @ tag @ ''>''"

definition end_tag :: "string \<Rightarrow> string" where
  "end_tag tag = ''</'' @ tag @ ''>''"

text \<open>
  The \<open>for tag in version_tags\<close> loop of \<open>find_version_tags_from_pom\<close>. The dictionary
  \<open>versions\<close> is an association list in insertion order; \<open>versions[tag] = v\<close> replaces
  the value of a key that is present in place and appends a new key at the end, which is
  \<open>AList.update\<close>.
\<close>

fun tags_loop :: "string \<Rightarrow> string list \<Rightarrow> (string \<times> string) list \<Rightarrow> (string \<times> string) list" where
  "tags_loop pom_xml_content [] versions = versions"
| "tags_loop pom_xml_content (tag # rest) versions =
     (let start_index = py_find pom_xml_content (start_tag tag);
          end_index = py_find pom_xml_content (end_tag tag)
      in if start_index \<noteq> - 1 \<and> end_index \<noteq> - 1
         then tags_loop pom_xml_content rest
                (AList.update tag
                   (py_strip (py_slice pom_xml_content
                                (start_index + int (length (start_tag tag))) end_index))
                   versions)
         else tags_loop pom_xml_content rest versions)"

text \<open>
  \<open>find_version_tags_from_pom\<close>: \<open>None\<close> is Python's \<open>None\<close>, returned for an empty
  dictionary. The content is a \<open>str\<close> (it is \<open>response.text\<close>) and the tags are
  strings, so no operation of the \<open>try\<close> block can raise and the \<open>except\<close> branch has
  no counterpart here.
\<close>

definition find_version_tags_from_pom :: "string \<Rightarrow> string list \<Rightarrow> (string \<times> string) list option" where
  "find_version_tags_from_pom pom_xml_content version_tags =
     (let versions = tags_loop pom_xml_content version_tags []
      in if versions \<noteq> [] then Some versions else None)"

text \<open>
  Occurrences of a marker, stated without \<open>py_find\<close>: \<open>occurs_at s sub i\<close> says that
  \<open>sub\<close> occurs in \<open>s\<close> at index \<open>i\<close>, \<open>first_at\<close> that this is its first occurrence,
  and \<open>occurs\<close> that it occurs somewhere.
\<close>

definition occurs_at :: "string \<Rightarrow> string \<Rightarrow> nat \<Rightarrow> bool" where
  "occurs_at s sub i = (i \<le> length s \<and> prefix sub (drop i s))"

definition first_at :: "string \<Rightarrow> string \<Rightarrow> nat \<Rightarrow> bool" where
  "first_at s sub i = (occurs_at s sub i \<and> (\<forall>k \<in> set [0..<i]. \<not> occurs_at s sub k))"

definition occurs :: "string \<Rightarrow> string \<Rightarrow> bool" where
  "occurs s sub = (\<exists>i \<in> set [0..<Suc (length s)]. occurs_at s sub i)"

text \<open>The text of \<open>s\<close> from index \<open>i\<close> up to, not including, index \<open>j\<close>.\<close>

definition between :: "string \<Rightarrow> nat \<Rightarrow> nat \<Rightarrow> string" where
  "between s i j = take (j - i) (drop i s)"


section \<open>Python values read from JSON\<close>

text \<open>
  What \<open>response.json()\<close> returns: \<open>None\<close>, a \<open>bool\<close>, an \<open>int\<close>, a \<open>str\<close>, a
  \<open>list\<close> or a \<open>dict\<close> with string keys. A \<open>dict\<close> is the list of its items in
  insertion order, and a key is looked up with \<open>map_of\<close>. JSON numbers with a fraction or
  an exponent become Python floats; they are not part of this model.
\<close>

datatype json =
    JNull
  | JBool bool
  | JInt int
  | JStr string
  | JArr "json list"
  | JObj "(string \<times> json) list"

text \<open>The truth value a Python \<open>if\<close> gives a value.\<close>

fun py_truthy :: "json \<Rightarrow> bool" where
  "py_truthy JNull = False"
| "py_truthy (JBool b) = b"
| "py_truthy (JInt i) = (i \<noteq> 0)"
| "py_truthy (JStr s) = (s \<noteq> [])"
| "py_truthy (JArr xs) = (xs \<noteq> [])"
| "py_truthy (JObj kvs) = (kvs \<noteq> [])"

text \<open>\<open>d.get(key)\<close>, with \<open>None\<close> for a missing key.\<close>

definition dict_get :: "(string \<times> json) list \<Rightarrow> string \<Rightarrow> json" where
  "dict_get d key = (case map_of d key of None \<Rightarrow> JNull | Some v \<Rightarrow> v)"

subsection \<open>Formatting a value inside an f-string\<close>

definition digit_char :: "nat \<Rightarrow> char" where
  "digit_char d = char_of (48 + d)"

fun show_nat :: "nat \<Rightarrow> string" where
  "show_nat n = (if n < 10 then [digit_char n] else show_nat (n div 10) @ [digit_char (n mod 10)])"

definition show_int :: "int \<Rightarrow> string" where
  "show_int i = (if i < 0 then ''-'' @ show_nat (nat (- i)) else show_nat (nat i))"

definition hex_char :: "nat \<Rightarrow> char" where
  "hex_char d = (if d < 10 then char_of (48 + d) else char_of (87 + d))"

text \<open>
  \<open>repr\<close> of a string: the quote is the single quote, or the double quote when the
  string holds a single quote and no double quote; the quote and the backslash are
  escaped with a backslash, tab, newline and carriage return are written \<open>\t\<close>,
  \<open>\n\<close> and \<open>\r\<close>, and the other code points below 256 that are not printable (below
  32, 127 to 160, and 173) are written \<open>\xNN\<close>.
\<close>

definition repr_char :: "char \<Rightarrow> char \<Rightarrow> string" where
  "repr_char quote c =
     (let k = (of_char c :: nat)
      in if c = quote \<or> k = 92 then [char_of (92::nat), c]
         else if k = 9 then [char_of (92::nat), CHR ''t'']
         else if k = 10 then [char_of (92::nat), CHR ''n'']
         else if k = 13 then [char_of (92::nat), CHR ''r'']
         else if k < 32 \<or> (127 \<le> k \<and> k \<le> 160) \<or> k = 173
           then [char_of (92::nat), CHR ''x'', hex_char (k div 16), hex_char (k mod 16)]
         else [c])"

definition repr_str :: "string \<Rightarrow> string" where
  "repr_str s =
     (let quote = (if char_of (39::nat) \<in> set s \<and> char_of (34::nat) \<notin> set s
                   then char_of (34::nat) else char_of (39::nat))
      in [quote] @ concat (map (repr_char quote) s) @ [quote])"

text \<open>\<open>sep.join(xs)\<close>.\<close>

fun join :: "string \<Rightarrow> string list \<Rightarrow> string" where
  "join sep [] = []"
| "join sep [x] = x"
| "join sep (x # y # ys) = x @ sep @ join sep (y # ys)"

primrec py_repr :: "json \<Rightarrow> string" where
  "py_repr JNull = ''None''"
| "py_repr (JBool b) = (if b then ''True'' else ''False'')"
| "py_repr (JInt i) = show_int i"
| "py_repr (JStr s) = repr_str s"
| "py_repr (JArr xs) = ''['' @ join '', '' (map py_repr xs) @ '']''"
| "py_repr (JObj kvs) =
     ''{'' @ join '', '' (map (\<lambda>(k, r). repr_str k @ '': '' @ r) (map (map_prod id py_repr) kvs))
       @ ''}''"

text \<open>\<open>str(v)\<close>, which is what \<open>f"{v}"\<close> inserts: a string as it is, anything else as its \<open>repr\<close>.\<close>

definition py_str :: "json \<Rightarrow> string" where
  "py_str v = (case v of JStr s \<Rightarrow> s | _ \<Rightarrow> py_repr v)"

section \<open>The directory walker\<close>

text \<open>
  The exceptions that can reach a caller. The first three come out of \<open>get_repo_data\<close>
  (\<open>raise_for_status\<close> with the status code, a network failure, a body that is not JSON);
  the others are raised by the walker's own operations on the data.
\<close>

datatype error =
    HTTPError nat
  | ConnectionError
  | JSONDecodeError
  | AttributeError
  | KeyError string
  | TypeError

text \<open>
  The listing endpoint is a parameter: given the URLs requested so far, in order, and the
  URL requested now, it gives what \<open>get_repo_data\<close> returns or raises. The credentials
  are part of it.
\<close>

type_synonym server = "string list \<Rightarrow> string \<Rightarrow> error + json"

text \<open>
  What a mock API and an observer of the loop would record, in order: each listing
  request, with the recursion depth of the call of \<open>recursive_search\<close> that issues it
  (0 for the call made by \<open>find_pom_xml_in_repo\<close>), its URL and what came back; and each
  entry the \<open>for\<close> loop takes, with the depth of the call whose loop takes it.
\<close>

datatype event =
    Request nat string "error + json"
  | Entry nat json

fun requests_of :: "event list \<Rightarrow> string list" where
  "requests_of [] = []"
| "requests_of (Request k u r # evs) = u # requests_of evs"
| "requests_of (Entry k e # evs) = requests_of evs"

text \<open>
  The state of a walk: the list \<open>pom_files\<close> that the closure appends to, and the record
  of events, which the walker never reads except to tell the server what was requested
  before.
\<close>

record walk_state =
  pom_files :: "json list"
  trace :: "event list"

datatype outcome =
    Returned walk_state
  | Raised error walk_state

text \<open>
  \<open>data.get('values', [])\<close> as the sequence the \<open>for\<close> loop runs over: a list gives its
  elements, a string its characters as one-character strings, a dictionary its keys;
  \<open>None\<close>, a \<open>bool\<close> and an \<open>int\<close> are not iterable.
\<close>

definition values_of :: "(string \<times> json) list \<Rightarrow> error + json list" where
  "values_of d =
     (case map_of d ''values'' of
        None \<Rightarrow> Inr []
      | Some (JArr xs) \<Rightarrow> Inr xs
      | Some (JStr s) \<Rightarrow> Inr (map (\<lambda>c. JStr [c]) s)
      | Some (JObj kvs) \<Rightarrow> Inr (map (\<lambda>kv. JStr (fst kv)) kvs)
      | Some _ \<Rightarrow> Inl TypeError)"

text \<open>
  \<open>file_info['path']['toString']\<close>: a missing key raises \<open>KeyError\<close>, and subscripting
  anything but a dictionary with a string raises \<open>TypeError\<close>.
\<close>

definition path_toString :: "(string \<times> json) list \<Rightarrow> error + json" where
  "path_toString file_info =
     (case map_of file_info ''path'' of
        None \<Rightarrow> Inl (KeyError ''path'')
      | Some (JObj p) \<Rightarrow>
          (case map_of p ''toString'' of
             None \<Rightarrow> Inl (KeyError ''toString'')
           | Some v \<Rightarrow> Inr v)
      | Some _ \<Rightarrow> Inl TypeError)"

text \<open>
  \<open>get_repo_data\<close>: the request, \<open>raise_for_status\<close> and \<open>response.json()\<close> are the
  server's answer to the URL, given the requests recorded so far.
\<close>

definition get_repo_data :: "server \<Rightarrow> event list \<Rightarrow> string \<Rightarrow> error + json" where
  "get_repo_data srv evs api_url = srv (requests_of evs) api_url"

definition log_event :: "event \<Rightarrow> walk_state \<Rightarrow> walk_state" where
  "log_event ev st = st\<lparr>trace := trace st @ [ev]\<rparr>"

definition append_pom :: "json \<Rightarrow> walk_state \<Rightarrow> walk_state" where
  "append_pom p st = st\<lparr>pom_files := pom_files st @ [p]\<rparr>"

text \<open>
  \<open>recursive_search\<close> is the closure of that name, \<open>for_entries\<close> the \<open>for\<close> loop in its
  body. \<open>api_url\<close> and \<open>base_url\<close> are the two variables the closure captures from
  \<open>find_pom_xml_in_repo\<close>; \<open>url\<close> is its own argument, reassigned by the \<open>while\<close> loop. A
  further turn of the \<open>while\<close> loop is the tail call at the same depth; the recursive call
  of the source is the call at depth \<open>Suc depth\<close> made by \<open>for_entries\<close>. The first
  argument is fuel, spent by every request: the walk need not terminate, and \<open>None\<close>
  says that the fuel did not suffice. The interpreter's recursion limit is not modelled.
\<close>

fun recursive_search ::
    "nat \<Rightarrow> server \<Rightarrow> string \<Rightarrow> string \<Rightarrow> nat \<Rightarrow> walk_state \<Rightarrow> string \<Rightarrow> outcome option"
  and for_entries ::
    "nat \<Rightarrow> server \<Rightarrow> string \<Rightarrow> string \<Rightarrow> nat \<Rightarrow> json list \<Rightarrow> walk_state \<Rightarrow> outcome option"
where
  "recursive_search 0 srv api_url base_url depth st url = None"
| "recursive_search (Suc n) srv api_url base_url depth st url =
     (if url = [] then Some (Returned st)
      else
        (let response = get_repo_data srv (trace st) url;
             st1 = log_event (Request depth url response) st
         in case response of
              Inl e \<Rightarrow> Some (Raised e st1)
            | Inr (JObj data) \<Rightarrow>
                (case values_of data of
                   Inl e \<Rightarrow> Some (Raised e st1)
                 | Inr entries \<Rightarrow>
                     (case for_entries n srv api_url base_url depth entries st1 of
                        None \<Rightarrow> None
                      | Some (Raised e st2) \<Rightarrow> Some (Raised e st2)
                      | Some (Returned st2) \<Rightarrow>
                          if py_truthy (dict_get data ''isLastPage'')
                          then Some (Returned st2)
                          else recursive_search n srv api_url base_url depth st2
                                 (api_url @ ''?start='' @ py_str (dict_get data ''nextPageStart''))))
            | Inr _ \<Rightarrow> Some (Raised AttributeError st1)))"
| "for_entries n srv api_url base_url depth [] st = Some (Returned st)"
| "for_entries n srv api_url base_url depth (file_info # rest) st =
     (let st0 = log_event (Entry depth file_info) st
      in case file_info of
           JStr s \<Rightarrow>
             for_entries n srv api_url base_url depth rest
               (if py_endswith s ''pom.xml'' then append_pom file_info st0 else st0)
         | JObj d \<Rightarrow>
             (case map_of d ''type'' of
                None \<Rightarrow> Some (Raised (KeyError ''type'') st0)
              | Some ty \<Rightarrow>
                  if ty = JStr ''DIRECTORY'' then
                    (case path_toString d of
                       Inl e \<Rightarrow> Some (Raised e st0)
                     | Inr p \<Rightarrow>
                         (case recursive_search n srv api_url base_url (Suc depth) st0
                                 (base_url @ ''/'' @ py_str p) of
                            None \<Rightarrow> None
                          | Some (Raised e st1) \<Rightarrow> Some (Raised e st1)
                          | Some (Returned st1) \<Rightarrow>
                              for_entries n srv api_url base_url depth rest st1))
                  else if ty = JStr ''FILE'' then
                    (case map_of d ''name'' of
                       None \<Rightarrow> Some (Raised (KeyError ''name'') st0)
                     | Some name \<Rightarrow>
                         if name = JStr ''pom.xml'' then
                           (case path_toString d of
                              Inl e \<Rightarrow> Some (Raised e st0)
                            | Inr p \<Rightarrow>
                                for_entries n srv api_url base_url depth rest (append_pom p st0))
                         else for_entries n srv api_url base_url depth rest st0)
                  else for_entries n srv api_url base_url depth rest st0)
         | _ \<Rightarrow> for_entries n srv api_url base_url depth rest st0)"

text \<open>
  \<open>find_pom_xml_in_repo\<close>: a fresh \<open>pom_files\<close>, one call of \<open>recursive_search\<close> on
  \<open>api_url\<close>, and the list is returned unless the call raised. The events recorded before
  are passed in and the extended record is passed out.
\<close>

definition find_pom_xml_in_repo ::
    "nat \<Rightarrow> server \<Rightarrow> event list \<Rightarrow> string \<Rightarrow> string \<Rightarrow> ((error + json list) \<times> event list) option" where
  "find_pom_xml_in_repo n srv evs api_url base_url =
     (case recursive_search n srv api_url base_url 0 \<lparr>pom_files = [], trace = evs\<rparr> api_url of
        None \<Rightarrow> None
      | Some (Raised e st) \<Rightarrow> Some (Inl e, trace st)
      | Some (Returned st) \<Rightarrow> Some (Inr (pom_files st), trace st))"

definition process_repository ::
    "nat \<Rightarrow> server \<Rightarrow> event list \<Rightarrow> string \<Rightarrow> string \<Rightarrow> string
      \<Rightarrow> ((error + json list) \<times> event list) option" where
  "process_repository n srv evs repo_slug project_key base_api_url =
     (let stash_api_url = base_api_url @ ''/projects/'' @ project_key @ ''/repos/'' @ repo_slug @ ''/files''
      in find_pom_xml_in_repo n srv evs stash_api_url stash_api_url)"


section \<open>Reading the record of a walk\<close>

fun state_of :: "outcome \<Rightarrow> walk_state" where
  "state_of (Returned st) = st"
| "state_of (Raised e st) = st"

text \<open>The entries the \<open>for\<close> loops took, in the order they took them.\<close>

fun entries_of :: "event list \<Rightarrow> json list" where
  "entries_of [] = []"
| "entries_of (Request k u r # evs) = entries_of evs"
| "entries_of (Entry k e # evs) = e # entries_of evs"

fun depth_of :: "event \<Rightarrow> nat" where
  "depth_of (Request k u r) = k"
| "depth_of (Entry k e) = k"

text \<open>
  Following the specification's words: the paths that one listing entry stands for. A
  plain string that ends with \<open>pom.xml\<close> is a discovered path itself; a structured
  entry of type \<open>FILE\<close> whose name is exactly \<open>pom.xml\<close> gives its path; no other entry
  gives a path.
\<close>

fun found_of :: "json \<Rightarrow> json list" where
  "found_of (JStr s) = (if py_endswith s ''pom.xml'' then [JStr s] else [])"
| "found_of (JObj d) =
     (if map_of d ''type'' = Some (JStr ''FILE'') \<and> map_of d ''name'' = Some (JStr ''pom.xml'')
      then (case path_toString d of Inl e \<Rightarrow> [] | Inr p \<Rightarrow> [p])
      else [])"
| "found_of v = []"

text \<open>
  \<open>ext k st st'\<close>: the state \<open>st'\<close> continues \<open>st\<close>. Its record is the record of \<open>st\<close>
  followed by events of depth \<open>k\<close> or more, and its \<open>pom_files\<close> is that of \<open>st\<close>
  followed by the paths of the entries taken in between.
\<close>

definition ext :: "nat \<Rightarrow> walk_state \<Rightarrow> walk_state \<Rightarrow> bool" where
  "ext k st st' \<longleftrightarrow>
     (\<exists>evs. trace st' = trace st @ evs
          \<and> pom_files st' = pom_files st @ concat (map found_of (entries_of evs))
          \<and> (\<forall>ev \<in> set evs. k \<le> depth_of ev))"

section \<open>Fetching and parsing one file\<close>

text \<open>
  The raw-content endpoint is a parameter: for a URL it gives the text of the response,
  or the exception that \<open>requests.get\<close> or \<open>raise_for_status\<close> raises. It is a function
  of the URL alone, so the order in which the worker threads call it does not matter.
\<close>

type_synonym fetcher = "string \<Rightarrow> error + string"

definition fetch_file_content ::
    "fetcher \<Rightarrow> string \<Rightarrow> string \<Rightarrow> json \<Rightarrow> string \<Rightarrow> error + string" where
  "fetch_file_content raw project_key repo_slug file_path base_api_url =
     raw (base_api_url @ ''/projects/'' @ project_key @ ''/repos/'' @ repo_slug
            @ ''/browse/'' @ py_str file_path @ ''?raw'')"

text \<open>
  \<open>fetch_and_parse_pom\<close>: any exception of the fetch is caught and the task returns
  \<open>None\<close>. The line it prints is not modelled: the tasks of one repository run on worker
  threads, and the order of their lines is the scheduler's.
\<close>

definition fetch_and_parse_pom ::
    "fetcher \<Rightarrow> string \<Rightarrow> string \<Rightarrow> json \<Rightarrow> string \<Rightarrow> string list
      \<Rightarrow> (json \<times> (string \<times> string) list) option" where
  "fetch_and_parse_pom raw project_key repo_slug pom_file base_api_url version_tags =
     (case fetch_file_content raw project_key repo_slug pom_file base_api_url of
        Inl e \<Rightarrow> None
      | Inr pom_content \<Rightarrow>
          (case find_version_tags_from_pom pom_content version_tags of
             None \<Rightarrow> None
           | Some versions \<Rightarrow> if versions \<noteq> [] then Some (pom_file, versions) else None))"

section \<open>The orchestrator\<close>

text \<open>
  The rows that the loop over \<open>futures\<close> writes for one result: nothing for \<open>None\<close>, and
  one row \<open>[project_key, repo_slug, pom_file, tag, version]\<close> per item of the dictionary
  otherwise. A row is the list handed to \<open>writerow\<close>.
\<close>

definition rows_of_result ::
    "string \<Rightarrow> string \<Rightarrow> (json \<times> (string \<times> string) list) option \<Rightarrow> json list list" where
  "rows_of_result project_key repo_slug result =
     (case result of
        None \<Rightarrow> []
      | Some (pom_file, versions) \<Rightarrow>
          if versions \<noteq> []
          then map (\<lambda>(tag, version).
                      [JStr project_key, JStr repo_slug, pom_file, JStr tag, JStr version])
                   versions
          else [])"

text \<open>
  The \<open>with ThreadPoolExecutor\<close> block: one task per discovered file, all submitted
  first, and the results read in submission order. Each task is a function of its
  arguments, so the list of results is the list of the tasks' values. The list of
  discovered files is written \<open>pom_files'\<close> here and in \<open>scan\<close>, the plain name being
  the field of \<open>walk_state\<close>.
\<close>

definition repo_rows ::
    "fetcher \<Rightarrow> string \<Rightarrow> string \<Rightarrow> string \<Rightarrow> string list \<Rightarrow> json list \<Rightarrow> json list list" where
  "repo_rows raw project_key repo_slug base_api_url version_tags pom_files' =
     (let futures = map (\<lambda>pom_file. fetch_and_parse_pom raw project_key repo_slug pom_file
                                      base_api_url version_tags) pom_files'
      in concat (map (rows_of_result project_key repo_slug) futures))"

text \<open>
  What the main thread prints: an empty line after a repository that was processed, and
  the error line of a repository whose processing raised.
\<close>

datatype printed =
    BlankLine
  | RepoError string string error

text \<open>
  The state of a run: the rows written to the report, the lines printed by the main
  thread, and the record of the listing requests made so far.
\<close>

record run_state =
  csv :: "json list list"
  stdout :: "printed list"
  history :: "event list"

text \<open>
  The loop \<open>for project_key, repo_slug in project_keys_and_slugs\<close> of \<open>main\<close>, with its
  \<open>try\<close> and \<open>except Exception\<close>. \<open>None\<close> says that the fuel did not suffice for one of
  the walks. Writing a row to the file is taken to succeed.
\<close>

fun scan ::
    "nat \<Rightarrow> server \<Rightarrow> fetcher \<Rightarrow> string \<Rightarrow> string list \<Rightarrow> (string \<times> string) list
      \<Rightarrow> run_state \<Rightarrow> run_state option" where
  "scan n srv raw base_api_url version_tags [] s = Some s"
| "scan n srv raw base_api_url version_tags ((project_key, repo_slug) # rest) s =
     (case process_repository n srv (history s) repo_slug project_key base_api_url of
        None \<Rightarrow> None
      | Some (Inl e, evs) \<Rightarrow>
          scan n srv raw base_api_url version_tags rest
            (s\<lparr>stdout := stdout s @ [RepoError project_key repo_slug e], history := evs\<rparr>)
      | Some (Inr pom_files', evs) \<Rightarrow>
          scan n srv raw base_api_url version_tags rest
            (s\<lparr>csv := csv s @ repo_rows raw project_key repo_slug base_api_url version_tags pom_files',
               stdout := stdout s @ [BlankLine],
               history := evs\<rparr>))"

text \<open>\<open>main\<close>, with its configuration and the header row.\<close>

definition main :: "nat \<Rightarrow> server \<Rightarrow> fetcher \<Rightarrow> run_state option" where
  "main n srv raw =
     (let base_api_url = ''https://stash.cvent.net/rest/api/1.0'';
          project_keys_and_slugs =
            [(''EVT'', ''attendee-order''),
             (''PT'', ''oss-event-reporting-datasource''),
             (''PT'', ''sms''),
             (''API'', ''universal-appointments''),
             (''PT'', ''public-api''),
             (''API'', ''universal-gamification''),
             (''LS'', ''ls-venue-compsets''),
             (''APPT'', ''appointments-worker''),
             (''BT'', ''bt-test-utils''),
             (''APPT'', ''appointments''),
             (''LS'', ''ls-reports-datasource''),
             (''CNF'', ''conference-es-search''),
             (''LS'', ''ls-adr''),
             (''CWITCH'', ''chime-shared-library'')];
          version_tags = [''mono-java.version'', ''postgresql.version'', ''mssql.version'',
                          ''maven-parent'']
      in scan n srv raw base_api_url version_tags project_keys_and_slugs
           \<lparr>csv = [[JStr ''Project Key'', JStr ''Repo Slug'', JStr ''File Path'',
                     JStr ''Version Tag'', JStr ''Version'']],
            stdout = [],
            history = []\<rparr>)"

text \<open>
  Following the specification's words: \<open>enclosed content tag v\<close> says that \<open>v\<close> is the
  trimmed text between an opening marker of \<open>tag\<close> in \<open>content\<close> and a closing marker of
  \<open>tag\<close> that starts at or after the end of that opening marker.
\<close>

definition enclosed :: "string \<Rightarrow> string \<Rightarrow> string \<Rightarrow> bool" where
  "enclosed content tag v =
     (\<exists>i \<in> set [0..<Suc (length content)]. \<exists>j \<in> set [0..<Suc (length content)].
        occurs_at content (start_tag tag) i \<and> occurs_at content (end_tag tag) j
      \<and> i + length (start_tag tag) \<le> j
      \<and> v = py_strip (between content (i + length (start_tag tag)) j))"


section \<open>Example servers\<close>

text \<open>
  Listing pages as the server sends them: the entries, the \<open>isLastPage\<close> flag and,
  when given, \<open>nextPageStart\<close>; and the two kinds of structured entries.
\<close>

definition page :: "json list \<Rightarrow> bool \<Rightarrow> int option \<Rightarrow> json" where
  "page entries is_last next_start =
     JObj ([(''values'', JArr entries), (''isLastPage'', JBool is_last)]
           @ (case next_start of None \<Rightarrow> [] | Some i \<Rightarrow> [(''nextPageStart'', JInt i)]))"

definition dir_entry :: "string \<Rightarrow> json" where
  "dir_entry p = JObj [(''type'', JStr ''DIRECTORY''), (''path'', JObj [(''toString'', JStr p)])]"


text \<open>
  A repository \<open>R\<close> with the directory \<open>A\<close> and the file \<open>B/pom.xml\<close>. The directory
  \<open>R/A\<close> is listed on two pages of one entry each; \<open>start=1\<close> lists a directory from
  its second entry on.
\<close>

definition paged_srv :: server where
  "paged_srv hist url =
     (if url = ''R'' then Inr (page [dir_entry ''A'', JStr ''B/pom.xml''] True None)
      else if url = ''R?start=1'' then Inr (page [JStr ''B/pom.xml''] True None)
      else if url = ''R/A'' then Inr (page [JStr ''A/1/pom.xml''] False (Some 1))
      else if url = ''R/A?start=1'' then Inr (page [JStr ''A/2/pom.xml''] True None)
      else Inl (HTTPError 404))"




text \<open>
  A server for a run of the orchestrator with the base URL \<open>B\<close>: the repository \<open>P/r\<close>
  lists three files on one page, and every other listing request is answered with
  status 500. Of the three files, \<open>pom.xml\<close> has the tag \<open>v\<close>, the fetch of \<open>m/pom.xml\<close>
  fails, and in \<open>k/pom.xml\<close> a closing marker of \<open>v\<close> comes first.
\<close>

definition demo_srv :: server where
  "demo_srv hist url =
     (if url = ''B/projects/P/repos/r/files''
      then Inr (page [JStr ''pom.xml'', JStr ''m/pom.xml'', JStr ''k/pom.xml''] True None)
      else Inl (HTTPError 500))"

definition demo_raw :: fetcher where
  "demo_raw url =
     (if url = ''B/projects/P/repos/r/browse/pom.xml?raw'' then Inr ''<v> 1.0 </v>''
      else if url = ''B/projects/P/repos/r/browse/k/pom.xml?raw'' then Inr ''</v><v>1</v>''
      else Inl (HTTPError 404))"

definition start_state :: run_state where
  "start_state = \<lparr>csv = [], stdout = [], history = []\<rparr>"

text \<open>
  A content in which the value of the tag \<open>v\<close> stands between a tab and a space on one
  side and a space and a line break on the other, followed by a second pair of markers.
\<close>

definition padded_pom :: string where
  "padded_pom = ''a<v>'' @ [CHR 0x09, CHR '' ''] @ ''1.0'' @ [CHR '' '', CHR 0x0A] @ ''</v>b<v>2</v>''"

section \<open>Facts about the string operations\<close>

lemma py_find_range: "py_find s sub = - 1 \<or> (0 \<le> py_find s sub \<and> py_find s sub \<le> int (length s))"
  by (induction s) (auto simp: Let_def)

lemma py_find_ge: "- 1 \<le> py_find s sub"
  using py_find_range [of s sub] by linarith

lemma occurs_at_Cons_Suc: "occurs_at (c # cs) sub (Suc k) = occurs_at cs sub k"
  by (simp add: occurs_at_def)

lemma occurs_at_0: "occurs_at s sub 0 = prefix sub s"
  by (simp add: occurs_at_def)

lemma py_find_none: "py_find s sub = - 1 \<longleftrightarrow> (\<forall>i. \<not> occurs_at s sub i)"
proof (induction s)
  case Nil
  show ?case by (auto simp: occurs_at_def)
next
  case (Cons c cs)
  show ?case
  proof (cases "prefix sub (c # cs)")
    case True
    then have "occurs_at (c # cs) sub 0" by (simp add: occurs_at_0)
    with True show ?thesis by auto
  next
    case False
    have "(\<forall>i. \<not> occurs_at (c # cs) sub i) \<longleftrightarrow> (\<forall>k. \<not> occurs_at cs sub k)"
    proof
      assume a: "\<forall>i. \<not> occurs_at (c # cs) sub i"
      show "\<forall>k. \<not> occurs_at cs sub k"
      proof
        fix k
        from a have "\<not> occurs_at (c # cs) sub (Suc k)" by blast
        then show "\<not> occurs_at cs sub k" by (simp add: occurs_at_Cons_Suc)
      qed
    next
      assume a: "\<forall>k. \<not> occurs_at cs sub k"
      show "\<forall>i. \<not> occurs_at (c # cs) sub i"
      proof
        fix i
        show "\<not> occurs_at (c # cs) sub i"
        proof (cases i)
          case 0
          with False show ?thesis by (simp add: occurs_at_0)
        next
          case (Suc k)
          with a show ?thesis by (simp add: occurs_at_Cons_Suc)
        qed
      qed
    qed
    moreover have "py_find (c # cs) sub = - 1 \<longleftrightarrow> py_find cs sub = - 1"
      using False py_find_ge [of cs sub] by (auto simp: Let_def)
    ultimately show ?thesis using Cons.IH by simp
  qed
qed

lemma py_find_first: "py_find s sub = int i \<longleftrightarrow> first_at s sub i"
proof (induction s arbitrary: i)
  case Nil
  show ?case by (auto simp: first_at_def occurs_at_def)
next
  case (Cons c cs)
  show ?case
  proof (cases "prefix sub (c # cs)")
    case True
    then have o: "occurs_at (c # cs) sub 0" by (simp add: occurs_at_0)
    show ?thesis
    proof (cases i)
      case 0
      with True o show ?thesis by (simp add: first_at_def)
    next
      case (Suc k)
      have "0 \<in> set [0..<Suc k]" by (simp del: upt_Suc)
      with o have "\<not> first_at (c # cs) sub (Suc k)"
        unfolding first_at_def by blast
      with True Suc show ?thesis by simp
    qed
  next
    case False
    then have no: "\<not> occurs_at (c # cs) sub 0" by (simp add: occurs_at_0)
    show ?thesis
    proof (cases i)
      case 0
      have "py_find (c # cs) sub \<noteq> 0"
        using False py_find_ge [of cs sub] by (auto simp: Let_def)
      moreover have "\<not> first_at (c # cs) sub 0"
        using no by (simp add: first_at_def)
      ultimately show ?thesis using 0 by simp
    next
      case (Suc k)
      have "py_find (c # cs) sub = int (Suc k) \<longleftrightarrow> py_find cs sub = int k"
        using False by (auto simp: Let_def)
      moreover have "first_at (c # cs) sub (Suc k) \<longleftrightarrow> first_at cs sub k"
      proof -
        have "(\<forall>j \<in> set [0..<Suc k]. \<not> occurs_at (c # cs) sub j)
               \<longleftrightarrow> (\<forall>j \<in> set [0..<k]. \<not> occurs_at cs sub j)"
        proof
          assume a: "\<forall>j \<in> set [0..<Suc k]. \<not> occurs_at (c # cs) sub j"
          show "\<forall>j \<in> set [0..<k]. \<not> occurs_at cs sub j"
          proof
            fix j assume "j \<in> set [0..<k]"
            then have "Suc j \<in> set [0..<Suc k]" by auto
            with a have "\<not> occurs_at (c # cs) sub (Suc j)" by blast
            then show "\<not> occurs_at cs sub j" by (simp add: occurs_at_Cons_Suc)
          qed
        next
          assume a: "\<forall>j \<in> set [0..<k]. \<not> occurs_at cs sub j"
          show "\<forall>j \<in> set [0..<Suc k]. \<not> occurs_at (c # cs) sub j"
          proof
            fix j assume j: "j \<in> set [0..<Suc k]"
            show "\<not> occurs_at (c # cs) sub j"
            proof (cases j)
              case 0
              with no show ?thesis by simp
            next
              case (Suc m)
              with j have "m \<in> set [0..<k]" by auto
              with a Suc show ?thesis by (simp add: occurs_at_Cons_Suc)
            qed
          qed
        qed
        then show ?thesis by (simp add: first_at_def occurs_at_Cons_Suc)
      qed
      ultimately show ?thesis using Cons.IH [of k] Suc by simp
    qed
  qed
qed

lemma occurs_iff: "occurs s sub \<longleftrightarrow> (\<exists>i. occurs_at s sub i)"
proof
  assume "occurs s sub"
  then show "\<exists>i. occurs_at s sub i" by (auto simp: occurs_def)
next
  assume "\<exists>i. occurs_at s sub i"
  then obtain i where i: "occurs_at s sub i" by blast
  then have "i \<le> length s" by (simp add: occurs_at_def)
  then have "i \<in> set [0..<Suc (length s)]" by (simp del: upt_Suc)
  with i show "occurs s sub" unfolding occurs_def by blast
qed

lemma py_find_found: "py_find s sub \<noteq> - 1 \<longleftrightarrow> occurs s sub"
  by (simp add: py_find_none occurs_iff)

lemma py_slice_between: "py_slice s (int i) (int j) = between s i j"
proof -
  define lo where "lo = min i (length s)"
  define hi where "hi = min j (length s)"
  have n: "nat (int hi - int lo) = hi - lo" by arith
  have l: "min (int i) (int (length s)) = int lo" by (simp add: lo_def)
  have h: "min (int j) (int (length s)) = int hi" by (simp add: hi_def)
  have "py_slice s (int i) (int j) = take (hi - lo) (drop lo s)"
    unfolding py_slice_def Let_def by (simp only: l h n of_nat_less_0_iff if_False nat_int)
  also have "\<dots> = take (j - i) (drop i s)"
  proof (cases "i \<le> length s")
    case True
    then have m: "lo = i" by (simp add: lo_def)
    show ?thesis
    proof (cases "j \<le> length s")
      case True
      then show ?thesis using m by (simp add: hi_def)
    next
      case False
      then have "length (drop i s) \<le> j - i" "length (drop i s) \<le> hi - i"
        by (auto simp: hi_def)
      then show ?thesis using m by simp
    qed
  next
    case False
    then show ?thesis by (simp add: lo_def)
  qed
  finally show ?thesis by (simp add: between_def)
qed

lemma first_at_exists: "occurs s sub \<Longrightarrow> \<exists>i. first_at s sub i"
proof -
  assume "occurs s sub"
  then have "py_find s sub \<noteq> - 1" by (simp add: py_find_found)
  with py_find_range [of s sub] have "0 \<le> py_find s sub" by blast
  then obtain i where "py_find s sub = int i" using nonneg_int_cases by blast
  then show ?thesis using py_find_first by blast
qed

lemma first_at_occurs: "first_at s sub i \<Longrightarrow> occurs s sub"
  by (auto simp: first_at_def occurs_iff)

text \<open>
  What \<open>py_strip\<close> removes and what it leaves: the string is the result with whitespace
  before and after it, and a result that is not empty neither starts nor ends with
  whitespace.
\<close>

lemma py_strip_split:
  "\<exists>pre post. s = pre @ py_strip s @ post
      \<and> (\<forall>c \<in> set pre. py_isspace c) \<and> (\<forall>c \<in> set post. py_isspace c)"
proof -
  let ?t = "dropWhile py_isspace s"
  let ?pre = "takeWhile py_isspace s"
  let ?post = "rev (takeWhile py_isspace (rev ?t))"
  have "?t = rev (takeWhile py_isspace (rev ?t) @ dropWhile py_isspace (rev ?t))"
    by (simp only: takeWhile_dropWhile_id rev_rev_ident)
  then have t: "?t = py_strip s @ ?post" by (simp only: rev_append py_strip_def)
  have "s = ?pre @ ?t" by simp
  with t have "s = ?pre @ py_strip s @ ?post" by simp
  moreover have "\<forall>c \<in> set ?pre. py_isspace c" by (auto dest: set_takeWhileD)
  moreover have "\<forall>c \<in> set ?post. py_isspace c" by (auto dest: set_takeWhileD)
  ultimately show ?thesis by blast
qed

lemma py_strip_ends:
  assumes "py_strip s \<noteq> []"
  shows "\<not> py_isspace (hd (py_strip s)) \<and> \<not> py_isspace (last (py_strip s))"
proof
  let ?t = "dropWhile py_isspace s"
  let ?u = "dropWhile py_isspace (rev ?t)"
  from assms have u: "?u \<noteq> []" by (simp add: py_strip_def)
  have t: "?t \<noteq> []"
  proof
    assume e: "?t = []"
    have "?u = []" by (simp only: e rev.simps dropWhile.simps)
    with u show False by simp
  qed
  have "last (py_strip s) = hd ?u" using u by (simp add: py_strip_def last_rev)
  moreover have "\<not> py_isspace (hd ?u)" using u by (rule hd_dropWhile)
  ultimately show "\<not> py_isspace (last (py_strip s))" by simp
  have "hd (py_strip s) = last ?u" using u by (simp add: py_strip_def hd_rev)
  also have "\<dots> = last (takeWhile py_isspace (rev ?t) @ ?u)" using u by (rule last_appendR [symmetric])
  also have "\<dots> = last (rev ?t)" by (simp only: takeWhile_dropWhile_id)
  also have "\<dots> = hd ?t" using t by (simp add: last_rev)
  finally have "hd (py_strip s) = hd ?t" .
  moreover have "\<not> py_isspace (hd ?t)" using t by (rule hd_dropWhile)
  ultimately show "\<not> py_isspace (hd (py_strip s))" by simp
qed

section \<open>Facts about the extractor\<close>

lemma tags_loop_map_of:
  "map_of (tags_loop c tags vs) t =
     (if t \<in> set tags \<and> py_find c (start_tag t) \<noteq> - 1 \<and> py_find c (end_tag t) \<noteq> - 1
      then Some (py_strip (py_slice c (py_find c (start_tag t) + int (length (start_tag t)))
                                       (py_find c (end_tag t))))
      else map_of vs t)"
  by (induction tags arbitrary: vs) (auto simp: Let_def update_conv')

lemma tags_loop_keys:
  "fst ` set (tags_loop c tags vs) =
     fst ` set vs \<union> {t \<in> set tags. py_find c (start_tag t) \<noteq> - 1 \<and> py_find c (end_tag t) \<noteq> - 1}"
  by (induction tags arbitrary: vs) (auto simp: Let_def dom_update)

lemma tags_loop_empty:
  "tags_loop c tags [] = [] \<longleftrightarrow>
     (\<forall>t \<in> set tags. \<not> (py_find c (start_tag t) \<noteq> - 1 \<and> py_find c (end_tag t) \<noteq> - 1))"
proof -
  have "tags_loop c tags [] = [] \<longleftrightarrow> fst ` set (tags_loop c tags []) = {}" by simp
  also have "\<dots> \<longleftrightarrow> (\<forall>t \<in> set tags. \<not> (py_find c (start_tag t) \<noteq> - 1 \<and> py_find c (end_tag t) \<noteq> - 1))"
    unfolding tags_loop_keys by auto
  finally show ?thesis .
qed

lemma extracted_value:
  assumes "first_at c (start_tag t) i" and "first_at c (end_tag t) j"
  shows "py_strip (py_slice c (py_find c (start_tag t) + int (length (start_tag t)))
                             (py_find c (end_tag t)))
         = py_strip (between c (i + length (start_tag t)) j)"
proof -
  from assms have "py_find c (start_tag t) = int i" "py_find c (end_tag t) = int j"
    by (simp_all add: py_find_first)
  then have "py_slice c (py_find c (start_tag t) + int (length (start_tag t))) (py_find c (end_tag t))
             = py_slice c (int (i + length (start_tag t))) (int j)" by simp
  then show ?thesis by (simp only: py_slice_between)
qed

lemma extract_present:
  assumes "t \<in> set tags" and "first_at c (start_tag t) i" and "first_at c (end_tag t) j"
  shows "\<exists>versions. find_version_tags_from_pom c tags = Some versions
           \<and> map_of versions t = Some (py_strip (between c (i + length (start_tag t)) j))"
proof -
  from assms have f: "py_find c (start_tag t) \<noteq> - 1" "py_find c (end_tag t) \<noteq> - 1"
    by (simp_all add: py_find_found first_at_occurs)
  with assms(1) have m: "map_of (tags_loop c tags []) t
        = Some (py_strip (between c (i + length (start_tag t)) j))"
    by (simp add: tags_loop_map_of extracted_value [OF assms(2,3)])
  then have "tags_loop c tags [] \<noteq> []" by auto
  with m show ?thesis by (simp add: find_version_tags_from_pom_def)
qed

section \<open>Claims about the extractor\<close>

text \<open>
  C4. When both markers of a requested tag occur in the content, the extractor returns a
  dictionary that holds, under that tag, the text between the end of the first occurrence
  of the opening marker and the start of the first occurrence of the closing marker, with
  leading and trailing whitespace trimmed: that text is the recorded value with only
  whitespace before it and only whitespace after it, and the recorded value, unless
  empty, neither starts nor ends with whitespace. For the content
  \<open><mono-java.version>2.1.5</mono-java.version>\<close> and the single tag
  \<open>mono-java.version\<close> the result is the dictionary with the one item
  \<open>mono-java.version: 2.1.5\<close>, and it is the same when line breaks, spaces and a tab
  surround \<open>2.1.5\<close> between the markers.
\<close>

theorem extract_between_first_markers:
  assumes "tag \<in> set version_tags"
    and "occurs content (start_tag tag)"
    and "occurs content (end_tag tag)"
  shows "(\<exists>i j versions v pre post.
            first_at content (start_tag tag) i \<and> first_at content (end_tag tag) j
          \<and> find_version_tags_from_pom content version_tags = Some versions
          \<and> map_of versions tag = Some v
          \<and> v = py_strip (between content (i + length (start_tag tag)) j)
          \<and> between content (i + length (start_tag tag)) j = pre @ v @ post
          \<and> list_all py_isspace pre \<and> list_all py_isspace post
          \<and> (v = [] \<or> (\<not> py_isspace (hd v) \<and> \<not> py_isspace (last v))))
       \<and> find_version_tags_from_pom ''<mono-java.version>2.1.5</mono-java.version>''
            [''mono-java.version'']
          = Some [(''mono-java.version'', ''2.1.5'')]
       \<and> find_version_tags_from_pom
            (''<mono-java.version>'' @ [CHR 0x0A, CHR '' '', CHR 0x09] @ ''2.1.5''
               @ [CHR '' '', CHR 0x0D, CHR 0x0A] @ ''</mono-java.version>'')
            [''mono-java.version'']
          = Some [(''mono-java.version'', ''2.1.5'')]"
proof (intro conjI)
  from assms(2) obtain i where i: "first_at content (start_tag tag) i"
    using first_at_exists by blast
  from assms(3) obtain j where j: "first_at content (end_tag tag) j"
    using first_at_exists by blast
  let ?slice = "between content (i + length (start_tag tag)) j"
  from extract_present [OF assms(1) i j] obtain versions where
    r: "find_version_tags_from_pom content version_tags = Some versions"
    and m: "map_of versions tag = Some (py_strip ?slice)" by blast
  from py_strip_split [of ?slice] obtain pre post where
    sp: "?slice = pre @ py_strip ?slice @ post"
    and ws: "\<forall>c \<in> set pre. py_isspace c" "\<forall>c \<in> set post. py_isspace c" by blast
  from ws have la: "list_all py_isspace pre" "list_all py_isspace post"
    by (simp_all add: list_all_iff)
  have ends: "py_strip ?slice = []
      \<or> (\<not> py_isspace (hd (py_strip ?slice)) \<and> \<not> py_isspace (last (py_strip ?slice)))"
    using py_strip_ends [of ?slice] by blast
  show "\<exists>i j versions v pre post.
            first_at content (start_tag tag) i \<and> first_at content (end_tag tag) j
          \<and> find_version_tags_from_pom content version_tags = Some versions
          \<and> map_of versions tag = Some v
          \<and> v = py_strip (between content (i + length (start_tag tag)) j)
          \<and> between content (i + length (start_tag tag)) j = pre @ v @ post
          \<and> list_all py_isspace pre \<and> list_all py_isspace post
          \<and> (v = [] \<or> (\<not> py_isspace (hd v) \<and> \<not> py_isspace (last v)))"
    apply (rule exI [of _ i], rule exI [of _ j], rule exI [of _ versions],
           rule exI [of _ "py_strip ?slice"], rule exI [of _ pre], rule exI [of _ post])
    apply (intro conjI)
            apply (rule i)
           apply (rule j)
          apply (rule r)
         apply (rule m)
        apply (rule refl)
       apply (rule sp)
      apply (rule la(1))
     apply (rule la(2))
    apply (rule ends)
    done
next
  show "find_version_tags_from_pom ''<mono-java.version>2.1.5</mono-java.version>''
            [''mono-java.version'']
          = Some [(''mono-java.version'', ''2.1.5'')]"
    by code_simp
next
  show "find_version_tags_from_pom
            (''<mono-java.version>'' @ [CHR 0x0A, CHR '' '', CHR 0x09] @ ''2.1.5''
               @ [CHR '' '', CHR 0x0D, CHR 0x0A] @ ''</mono-java.version>'')
            [''mono-java.version'']
          = Some [(''mono-java.version'', ''2.1.5'')]"
    by code_simp
qed

theorem extract_between_first_markers_witness:
  "''v'' \<in> set [''u'', ''v'']
   \<and> occurs padded_pom (start_tag ''v'')
   \<and> occurs padded_pom (end_tag ''v'')
   \<and> (\<exists>i j versions v pre post.
          first_at padded_pom (start_tag ''v'') i \<and> first_at padded_pom (end_tag ''v'') j
        \<and> find_version_tags_from_pom padded_pom [''u'', ''v''] = Some versions
        \<and> map_of versions ''v'' = Some v
        \<and> v = py_strip (between padded_pom (i + length (start_tag ''v'')) j)
        \<and> between padded_pom (i + length (start_tag ''v'')) j = pre @ v @ post
        \<and> list_all py_isspace pre \<and> list_all py_isspace post
        \<and> (v = [] \<or> (\<not> py_isspace (hd v) \<and> \<not> py_isspace (last v))))
   \<and> first_at padded_pom (start_tag ''v'') 1
   \<and> first_at padded_pom (end_tag ''v'') 11
   \<and> between padded_pom (1 + length (start_tag ''v'')) 11
        = [CHR 0x09, CHR '' ''] @ ''1.0'' @ [CHR '' '', CHR 0x0A]
   \<and> find_version_tags_from_pom padded_pom [''u'', ''v''] = Some [(''v'', ''1.0'')]"
proof -
  have h1: "''v'' \<in> set [''u'', ''v'']" by simp
  have h2: "occurs padded_pom (start_tag ''v'')" by code_simp
  have h3: "occurs padded_pom (end_tag ''v'')" by code_simp
  have e1: "first_at padded_pom (start_tag ''v'') 1" by code_simp
  have e2: "first_at padded_pom (end_tag ''v'') 11" by code_simp
  have e3: "between padded_pom (1 + length (start_tag ''v'')) 11
        = [CHR 0x09, CHR '' ''] @ ''1.0'' @ [CHR '' '', CHR 0x0A]" by code_simp
  have e4: "find_version_tags_from_pom padded_pom [''u'', ''v''] = Some [(''v'', ''1.0'')]"
    by code_simp
  from extract_between_first_markers [OF h1 h2 h3]
  have "\<exists>i j versions v pre post.
          first_at padded_pom (start_tag ''v'') i \<and> first_at padded_pom (end_tag ''v'') j
        \<and> find_version_tags_from_pom padded_pom [''u'', ''v''] = Some versions
        \<and> map_of versions ''v'' = Some v
        \<and> v = py_strip (between padded_pom (i + length (start_tag ''v'')) j)
        \<and> between padded_pom (i + length (start_tag ''v'')) j = pre @ v @ post
        \<and> list_all py_isspace pre \<and> list_all py_isspace post
        \<and> (v = [] \<or> (\<not> py_isspace (hd v) \<and> \<not> py_isspace (last v)))"
    by (rule conjunct1)
  with h1 h2 h3 e1 e2 e3 e4 show ?thesis by blast
qed

text \<open>
  C5. When both markers of a requested tag occur and the first occurrence of the closing
  marker lies before the first occurrence of the opening marker, the extractor neither
  fails nor skips the tag: it returns a dictionary that holds, under that tag, the trimmed
  slice from the end of the first opening marker to the start of the first closing marker.
  That slice is empty, so the recorded value is the empty string.
\<close>

theorem closing_marker_before_opening:
  assumes "tag \<in> set version_tags"
    and "first_at content (start_tag tag) i"
    and "first_at content (end_tag tag) j"
    and "j < i"
  shows "\<exists>versions.
            find_version_tags_from_pom content version_tags = Some versions
          \<and> map_of versions tag
              = Some (py_strip (between content (i + length (start_tag tag)) j))
          \<and> map_of versions tag = Some []"
proof -
  from assms(4) have "between content (i + length (start_tag tag)) j = []"
    by (simp add: between_def)
  then have "py_strip (between content (i + length (start_tag tag)) j) = []"
    by (simp add: py_strip_def)
  with extract_present [OF assms(1-3)] show ?thesis by auto
qed

theorem closing_marker_before_opening_witness:
  "''v'' \<in> set [''v'']
   \<and> first_at ''</v>x<v>1</v>'' (start_tag ''v'') 5
   \<and> first_at ''</v>x<v>1</v>'' (end_tag ''v'') 0
   \<and> (0::nat) < 5
   \<and> (\<exists>versions.
          find_version_tags_from_pom ''</v>x<v>1</v>'' [''v''] = Some versions
        \<and> map_of versions ''v''
            = Some (py_strip (between ''</v>x<v>1</v>'' (5 + length (start_tag ''v'')) 0))
        \<and> map_of versions ''v'' = Some [])"
proof -
  have h1: "''v'' \<in> set [''v'']" by simp
  have h2: "first_at ''</v>x<v>1</v>'' (start_tag ''v'') 5" by code_simp
  have h3: "first_at ''</v>x<v>1</v>'' (end_tag ''v'') 0" by code_simp
  have h4: "(0::nat) < 5" by simp
  from closing_marker_before_opening [OF h1 h2 h3 h4] h1 h2 h3 h4
  show ?thesis by blast
qed

text \<open>
  C6. A requested tag with a marker missing from the content is left out of the result
  and nothing is raised: the keys of a returned dictionary are exactly the requested tags
  whose two markers both occur. The result is \<open>None\<close>, never an empty dictionary,
  exactly when no requested tag has both markers in the content. In particular, when the
  only requested tag has no opening marker in the content, the result is \<open>None\<close>.
\<close>

theorem extract_skips_absent_tags:
  "(find_version_tags_from_pom content version_tags = None
      \<longleftrightarrow> (\<forall>t \<in> set version_tags.
             \<not> (occurs content (start_tag t) \<and> occurs content (end_tag t))))
   \<and> find_version_tags_from_pom content version_tags \<noteq> Some []
   \<and> (\<forall>versions. find_version_tags_from_pom content version_tags = Some versions
         \<longrightarrow> fst ` set versions
              = {t \<in> set version_tags.
                   occurs content (start_tag t) \<and> occurs content (end_tag t)})
   \<and> (\<not> occurs content (start_tag tag)
         \<longrightarrow> find_version_tags_from_pom content [tag] = None)"
proof (intro conjI)
  show "find_version_tags_from_pom content version_tags = None
      \<longleftrightarrow> (\<forall>t \<in> set version_tags.
             \<not> (occurs content (start_tag t) \<and> occurs content (end_tag t)))"
    using tags_loop_empty [of content version_tags]
    by (simp add: find_version_tags_from_pom_def py_find_found)
next
  show "find_version_tags_from_pom content version_tags \<noteq> Some []"
    by (simp add: find_version_tags_from_pom_def Let_def)
next
  show "\<forall>versions. find_version_tags_from_pom content version_tags = Some versions
         \<longrightarrow> fst ` set versions
              = {t \<in> set version_tags.
                   occurs content (start_tag t) \<and> occurs content (end_tag t)}"
  proof (intro allI impI)
    fix versions
    assume "find_version_tags_from_pom content version_tags = Some versions"
    then have "versions = tags_loop content version_tags []"
      by (simp add: find_version_tags_from_pom_def Let_def split: if_splits)
    then show "fst ` set versions
              = {t \<in> set version_tags.
                   occurs content (start_tag t) \<and> occurs content (end_tag t)}"
      by (simp add: tags_loop_keys py_find_found)
  qed
next
  show "\<not> occurs content (start_tag tag)
         \<longrightarrow> find_version_tags_from_pom content [tag] = None"
    by (simp add: find_version_tags_from_pom_def py_find_found)
qed

theorem extract_skips_absent_tags_witness:
  "find_version_tags_from_pom ''<c>1</c><a>2'' [''a'', ''b''] = None
   \<and> find_version_tags_from_pom ''<c>1</c><a>2'' [''a'', ''c''] = Some [(''c'', ''1'')]
   \<and> fst ` set [(''c'', ''1'')]
        = {t \<in> set [''a'', ''c'']. occurs ''<c>1</c><a>2'' (start_tag t)
                                     \<and> occurs ''<c>1</c><a>2'' (end_tag t)}
   \<and> \<not> occurs ''<c>1</c><a>2'' (start_tag ''b'')
   \<and> find_version_tags_from_pom ''<c>1</c><a>2'' [''b''] = None"
proof -
  have h1: "\<forall>t \<in> set [''a'', ''b'']. \<not> (occurs ''<c>1</c><a>2'' (start_tag t)
                                     \<and> occurs ''<c>1</c><a>2'' (end_tag t))"
    by code_simp
  have h2: "find_version_tags_from_pom ''<c>1</c><a>2'' [''a'', ''c''] = Some [(''c'', ''1'')]"
    by code_simp
  have h3: "\<not> occurs ''<c>1</c><a>2'' (start_tag ''b'')" by code_simp
  note a = extract_skips_absent_tags [of "''<c>1</c><a>2''" "[''a'', ''b'']" "''b''"]
  note b = extract_skips_absent_tags [of "''<c>1</c><a>2''" "[''a'', ''c'']" "''b''"]
  from a h1 have c1: "find_version_tags_from_pom ''<c>1</c><a>2'' [''a'', ''b''] = None"
    by blast
  from b h2 have c2: "fst ` set [(''c'', ''1'')]
        = {t \<in> set [''a'', ''c'']. occurs ''<c>1</c><a>2'' (start_tag t)
                                     \<and> occurs ''<c>1</c><a>2'' (end_tag t)}"
    by blast
  from a h3 have c3: "find_version_tags_from_pom ''<c>1</c><a>2'' [''b''] = None"
    by blast
  from c1 h2 c2 h3 c3 show ?thesis by blast
qed

section \<open>Facts about the walker\<close>

lemma entries_of_append: "entries_of (xs @ ys) = entries_of xs @ entries_of ys"
  by (induction xs rule: entries_of.induct) auto

lemma ext_refl: "ext k st st"
  by (simp add: ext_def)

lemma ext_trans: "ext k a b \<Longrightarrow> ext k b c \<Longrightarrow> ext k a c"
  unfolding ext_def
  apply (elim exE conjE)
  subgoal for e1 e2
    apply (rule exI [of _ "e1 @ e2"])
    apply (auto simp: entries_of_append)
    done
  done

lemma ext_mono: "ext (Suc k) a b \<Longrightarrow> ext k a b"
  unfolding ext_def by (meson Suc_leD)

lemma ext_request: "ext k st (log_event (Request k u r) st)"
  by (simp add: ext_def log_event_def)

lemma ext_entry: "found_of e = [] \<Longrightarrow> ext k st (log_event (Entry k e) st)"
  by (simp add: ext_def log_event_def)

lemma ext_entry_pom: "found_of e = [p] \<Longrightarrow> ext k st (append_pom p (log_event (Entry k e) st))"
  by (simp add: ext_def log_event_def append_pom_def)

lemma recursive_search_SucE:
  assumes "recursive_search (Suc n) srv api base k st url = Some out"
  obtains
    (no_url) "url = []" "out = Returned st"
  | (request_raised) e where "url \<noteq> []" "get_repo_data srv (trace st) url = Inl e"
      "out = Raised e (log_event (Request k url (Inl e)) st)"
  | (not_a_dict) v where "url \<noteq> []" "get_repo_data srv (trace st) url = Inr v"
      "\<forall>d. v \<noteq> JObj d"
      "out = Raised AttributeError (log_event (Request k url (Inr v)) st)"
  | (not_iterable) d e where "url \<noteq> []" "get_repo_data srv (trace st) url = Inr (JObj d)"
      "values_of d = Inl e"
      "out = Raised e (log_event (Request k url (Inr (JObj d))) st)"
  | (entries_raised) d es e st2 where "url \<noteq> []"
      "get_repo_data srv (trace st) url = Inr (JObj d)" "values_of d = Inr es"
      "for_entries n srv api base k es (log_event (Request k url (Inr (JObj d))) st)
         = Some (Raised e st2)"
      "out = Raised e st2"
  | (last_page) d es st2 where "url \<noteq> []"
      "get_repo_data srv (trace st) url = Inr (JObj d)" "values_of d = Inr es"
      "for_entries n srv api base k es (log_event (Request k url (Inr (JObj d))) st)
         = Some (Returned st2)"
      "py_truthy (dict_get d ''isLastPage'')"
      "out = Returned st2"
  | (next_page) d es st2 where "url \<noteq> []"
      "get_repo_data srv (trace st) url = Inr (JObj d)" "values_of d = Inr es"
      "for_entries n srv api base k es (log_event (Request k url (Inr (JObj d))) st)
         = Some (Returned st2)"
      "\<not> py_truthy (dict_get d ''isLastPage'')"
      "recursive_search n srv api base k st2
         (api @ ''?start='' @ py_str (dict_get d ''nextPageStart'')) = Some out"
proof (cases "url = []")
  case True
  with assms that(1) show ?thesis by simp
next
  case nonempty: False
  show ?thesis
  proof (cases "get_repo_data srv (trace st) url")
    case (Inl e)
    with assms nonempty have "out = Raised e (log_event (Request k url (Inl e)) st)"
      by (simp add: Let_def)
    with that(2) [of e] nonempty Inl show ?thesis by simp
  next
    case (Inr v)
    show ?thesis
    proof (cases "\<exists>d. v = JObj d")
      case False
      with assms nonempty Inr have "out = Raised AttributeError (log_event (Request k url (Inr v)) st)"
        by (cases v) (simp_all add: Let_def)
      with False nonempty Inr that(3) show ?thesis by blast
    next
      case True
      then obtain d where d: "v = JObj d" by blast
      show ?thesis
      proof (cases "values_of d")
        case (Inl e)
        with assms nonempty Inr d
        have "out = Raised e (log_event (Request k url (Inr (JObj d))) st)"
          by (simp add: Let_def)
        with that(4) [of d e] nonempty Inr d Inl show ?thesis by simp
      next
        case es: (Inr es)
        let ?st1 = "log_event (Request k url (Inr (JObj d))) st"
        show ?thesis
        proof (cases "for_entries n srv api base k es ?st1")
          case None
          with assms nonempty Inr d es show ?thesis by (simp add: Let_def)
        next
          case (Some r)
          show ?thesis
          proof (cases r)
            case (Raised e st2)
            with assms nonempty Inr d es Some have "out = Raised e st2" by (simp add: Let_def)
            with that(5) [of d es e st2] nonempty Inr d es Some Raised show ?thesis by simp
          next
            case (Returned st2)
            show ?thesis
            proof (cases "py_truthy (dict_get d ''isLastPage'')")
              case True
              with assms nonempty Inr d es Some Returned have "out = Returned st2"
                by (simp add: Let_def)
              with that(6) [of d es st2] nonempty Inr d es Some Returned True show ?thesis
                by simp
            next
              case False
              with assms nonempty Inr d es Some Returned
              have "recursive_search n srv api base k st2
                      (api @ ''?start='' @ py_str (dict_get d ''nextPageStart'')) = Some out"
                by (simp add: Let_def)
              with that(7) [of d es st2] nonempty Inr d es Some Returned False show ?thesis
                by simp
            qed
          qed
        qed
      qed
    qed
  qed
qed

lemma for_entries_ConsE:
  assumes "for_entries n srv api base k (e # rest) st = Some out"
  obtains
    (pom_string) s where "e = JStr s" "py_endswith s ''pom.xml''"
      "for_entries n srv api base k rest (append_pom e (log_event (Entry k e) st)) = Some out"
  | (other_string) s where "e = JStr s" "\<not> py_endswith s ''pom.xml''"
      "for_entries n srv api base k rest (log_event (Entry k e) st) = Some out"
  | (no_type) d where "e = JObj d" "map_of d ''type'' = None"
      "out = Raised (KeyError ''type'') (log_event (Entry k e) st)"
  | (dir_bad_path) d err where "e = JObj d" "map_of d ''type'' = Some (JStr ''DIRECTORY'')"
      "path_toString d = Inl err" "out = Raised err (log_event (Entry k e) st)"
  | (dir_raised) d p err st1 where "e = JObj d" "map_of d ''type'' = Some (JStr ''DIRECTORY'')"
      "path_toString d = Inr p"
      "recursive_search n srv api base (Suc k) (log_event (Entry k e) st) (base @ ''/'' @ py_str p)
         = Some (Raised err st1)"
      "out = Raised err st1"
  | (dir_returned) d p st1 where "e = JObj d" "map_of d ''type'' = Some (JStr ''DIRECTORY'')"
      "path_toString d = Inr p"
      "recursive_search n srv api base (Suc k) (log_event (Entry k e) st) (base @ ''/'' @ py_str p)
         = Some (Returned st1)"
      "for_entries n srv api base k rest st1 = Some out"
  | (file_no_name) d where "e = JObj d" "map_of d ''type'' = Some (JStr ''FILE'')"
      "map_of d ''name'' = None" "out = Raised (KeyError ''name'') (log_event (Entry k e) st)"
  | (pom_bad_path) d err where "e = JObj d" "map_of d ''type'' = Some (JStr ''FILE'')"
      "map_of d ''name'' = Some (JStr ''pom.xml'')" "path_toString d = Inl err"
      "out = Raised err (log_event (Entry k e) st)"
  | (pom) d p where "e = JObj d" "map_of d ''type'' = Some (JStr ''FILE'')"
      "map_of d ''name'' = Some (JStr ''pom.xml'')" "path_toString d = Inr p"
      "for_entries n srv api base k rest (append_pom p (log_event (Entry k e) st)) = Some out"
  | (other_file) d name where "e = JObj d" "map_of d ''type'' = Some (JStr ''FILE'')"
      "map_of d ''name'' = Some name" "name \<noteq> JStr ''pom.xml''"
      "for_entries n srv api base k rest (log_event (Entry k e) st) = Some out"
  | (other_type) d ty where "e = JObj d" "map_of d ''type'' = Some ty"
      "ty \<noteq> JStr ''DIRECTORY''" "ty \<noteq> JStr ''FILE''"
      "for_entries n srv api base k rest (log_event (Entry k e) st) = Some out"
  | (other_value) "\<forall>s. e \<noteq> JStr s" "\<forall>d. e \<noteq> JObj d"
      "for_entries n srv api base k rest (log_event (Entry k e) st) = Some out"
proof (cases e)
  case JNull
  with assms that(12) show ?thesis by (simp add: Let_def)
next
  case (JBool b)
  with assms that(12) show ?thesis by (simp add: Let_def)
next
  case (JInt i)
  with assms that(12) show ?thesis by (simp add: Let_def)
next
  case (JArr xs)
  with assms that(12) show ?thesis by (simp add: Let_def)
next
  case (JStr s)
  show ?thesis
  proof (cases "py_endswith s ''pom.xml''")
    case True
    with assms JStr
    have "for_entries n srv api base k rest (append_pom e (log_event (Entry k e) st)) = Some out"
      by (simp add: Let_def)
    with that(1) [of s] JStr True show ?thesis by simp
  next
    case False
    with assms JStr
    have "for_entries n srv api base k rest (log_event (Entry k e) st) = Some out"
      by (simp add: Let_def)
    with that(2) [of s] JStr False show ?thesis by simp
  qed
next
  case (JObj d)
  let ?st0 = "log_event (Entry k e) st"
  show ?thesis
  proof (cases "map_of d ''type''")
    case None
    with assms JObj have "out = Raised (KeyError ''type'') ?st0" by (simp add: Let_def)
    with that(3) [of d] JObj None show ?thesis by simp
  next
    case (Some ty)
    show ?thesis
    proof (cases "ty = JStr ''DIRECTORY''")
      case dir: True
      show ?thesis
      proof (cases "path_toString d")
        case (Inl err)
        with assms JObj Some dir have "out = Raised err ?st0" by (simp add: Let_def)
        with that(4) [of d err] JObj Some dir Inl show ?thesis by simp
      next
        case (Inr p)
        show ?thesis
        proof (cases "recursive_search n srv api base (Suc k) ?st0 (base @ ''/'' @ py_str p)")
          case None
          with assms JObj Some dir Inr show ?thesis by (simp add: Let_def)
        next
          case sub: (Some r)
          show ?thesis
          proof (cases r)
            case (Raised err st1)
            with assms JObj Some dir Inr sub have "out = Raised err st1" by (simp add: Let_def)
            with that(5) [of d p err st1] JObj Some dir Inr sub Raised show ?thesis by simp
          next
            case (Returned st1)
            with assms JObj Some dir Inr sub
            have "for_entries n srv api base k rest st1 = Some out" by (simp add: Let_def)
            with that(6) [of d p st1] JObj Some dir Inr sub Returned show ?thesis by simp
          qed
        qed
      qed
    next
      case nodir: False
      show ?thesis
      proof (cases "ty = JStr ''FILE''")
        case isfile: True
        show ?thesis
        proof (cases "map_of d ''name''")
          case None
          with assms JObj Some isfile have "out = Raised (KeyError ''name'') ?st0"
            by (simp add: Let_def)
          with that(7) [of d] JObj Some isfile None show ?thesis by simp
        next
          case name: (Some name)
          show ?thesis
          proof (cases "name = JStr ''pom.xml''")
            case pom: True
            show ?thesis
            proof (cases "path_toString d")
              case (Inl err)
              with assms JObj Some isfile name pom have "out = Raised err ?st0"
                by (simp add: Let_def)
              with that(8) [of d err] JObj Some isfile name pom Inl show ?thesis by simp
            next
              case (Inr p)
              with assms JObj Some isfile name pom
              have "for_entries n srv api base k rest (append_pom p ?st0) = Some out"
                by (simp add: Let_def)
              with that(9) [of d p] JObj Some isfile name pom Inr show ?thesis by simp
            qed
          next
            case False
            with assms JObj Some isfile name
            have "for_entries n srv api base k rest ?st0 = Some out" by (simp add: Let_def)
            with that(10) [of d name] JObj Some isfile name False show ?thesis by simp
          qed
        qed
      next
        case False
        with assms JObj Some nodir
        have "for_entries n srv api base k rest ?st0 = Some out" by (simp add: Let_def)
        with that(11) [of d ty] JObj Some nodir False show ?thesis by simp
      qed
    qed
  qed
qed

text \<open>
  Induction over a walk: a property of the calls of \<open>recursive_search\<close> and one of the
  runs of \<open>for_entries\<close> hold for all fuels when each holds for a call or run under the
  assumption that both hold for the calls and runs made inside it.
\<close>

lemma walk_induct:
  assumes search: "\<And>n k st url out.
      \<lbrakk>recursive_search (Suc n) srv api base k st url = Some out;
       \<And>k' es st' out'. for_entries n srv api base k' es st' = Some out' \<Longrightarrow> Q n k' es st' out';
       \<And>k' st' url' out'. recursive_search n srv api base k' st' url' = Some out'
          \<Longrightarrow> P n k' st' url' out'\<rbrakk>
      \<Longrightarrow> P (Suc n) k st url out"
    and nil: "\<And>n k st. Q n k [] st (Returned st)"
    and cons: "\<And>n k e rest st out.
      \<lbrakk>for_entries n srv api base k (e # rest) st = Some out;
       \<And>k' st' url' out'. recursive_search n srv api base k' st' url' = Some out'
          \<Longrightarrow> P n k' st' url' out';
       \<And>st' out'. for_entries n srv api base k rest st' = Some out' \<Longrightarrow> Q n k rest st' out'\<rbrakk>
      \<Longrightarrow> Q n k (e # rest) st out"
  shows "(recursive_search n srv api base k st url = Some out \<longrightarrow> P n k st url out)
       \<and> (for_entries n srv api base k es st = Some out \<longrightarrow> Q n k es st out)"
proof -
  have entries: "\<forall>st out. for_entries n srv api base k es st = Some out \<longrightarrow> Q n k es st out"
    if sub: "\<And>k' st' url' out'. recursive_search n srv api base k' st' url' = Some out'
          \<Longrightarrow> P n k' st' url' out'"
    for n k es
  proof (induction es)
    case Nil
    show ?case using nil by simp
  next
    case (Cons e rest)
    show ?case
    proof (intro allI impI)
      fix st out
      assume run: "for_entries n srv api base k (e # rest) st = Some out"
      show "Q n k (e # rest) st out"
        by (rule cons [OF run sub]) (use Cons.IH in blast)+
    qed
  qed
  have both: "(\<forall>k st url out. recursive_search n srv api base k st url = Some out \<longrightarrow> P n k st url out)
      \<and> (\<forall>k es st out. for_entries n srv api base k es st = Some out \<longrightarrow> Q n k es st out)"
  proof (induction n)
    case 0
    have z: "recursive_search 0 srv api base k' st' url' = Some out' \<Longrightarrow> P 0 k' st' url' out'"
      for k' st' url' out' by simp
    have "\<forall>st out. for_entries 0 srv api base k es st = Some out \<longrightarrow> Q 0 k es st out" for k es
      by (rule entries) (rule z)
    then show ?case by simp
  next
    case (Suc n)
    have s: "\<And>k' st' url' out'. recursive_search (Suc n) srv api base k' st' url' = Some out'
          \<Longrightarrow> P (Suc n) k' st' url' out'"
    proof -
      fix k' st' url' out'
      assume run: "recursive_search (Suc n) srv api base k' st' url' = Some out'"
      show "P (Suc n) k' st' url' out'"
        by (rule search [OF run]) (use Suc.IH in blast)+
    qed
    have "\<forall>st out. for_entries (Suc n) srv api base k es st = Some out \<longrightarrow> Q (Suc n) k es st out"
      for k es
      by (rule entries) (rule s)
    with s show ?case by blast
  qed
  then show ?thesis by blast
qed

lemma found_of_other: "\<forall>s. e \<noteq> JStr s \<Longrightarrow> \<forall>d. e \<noteq> JObj d \<Longrightarrow> found_of e = []"
  by (cases e) simp_all

lemma walk_ext_both:
  "(recursive_search n srv api base k st url = Some out \<longrightarrow> ext k st (state_of out))
 \<and> (for_entries n srv api base k es st = Some out \<longrightarrow> ext k st (state_of out))"
proof (rule walk_induct [where P = "\<lambda>n k st url out. ext k st (state_of out)"
                           and Q = "\<lambda>n k es st out. ext k st (state_of out)"])
  fix n k st url out
  assume run: "recursive_search (Suc n) srv api base k st url = Some out"
    and entries: "\<And>k' es st' out'. for_entries n srv api base k' es st' = Some out'
                    \<Longrightarrow> ext k' st' (state_of out')"
    and search: "\<And>k' st' url' out'. recursive_search n srv api base k' st' url' = Some out'
                    \<Longrightarrow> ext k' st' (state_of out')"
  from run show "ext k st (state_of out)"
  proof (cases rule: recursive_search_SucE)
    case no_url
    then show ?thesis by (simp add: ext_refl)
  next
    case (request_raised e)
    then show ?thesis by (simp add: ext_request)
  next
    case (not_a_dict v)
    then show ?thesis by (simp add: ext_request)
  next
    case (not_iterable d e)
    then show ?thesis by (simp add: ext_request)
  next
    case (entries_raised d es e st2)
    from entries [OF entries_raised(4)] entries_raised(5) show ?thesis
      using ext_trans [OF ext_request] by simp
  next
    case (last_page d es st2)
    from entries [OF last_page(4)] last_page(6) show ?thesis
      using ext_trans [OF ext_request] by simp
  next
    case (next_page d es st2)
    from entries [OF next_page(4)]
    have "ext k st st2" using ext_trans [OF ext_request] by simp
    with search [OF next_page(6)] show ?thesis by (rule ext_trans [rotated])
  qed
next
  fix n :: nat and k st
  show "ext k st (state_of (Returned st))" by (simp add: ext_refl)
next
  fix n k e rest st out
  assume run: "for_entries n srv api base k (e # rest) st = Some out"
    and search: "\<And>k' st' url' out'. recursive_search n srv api base k' st' url' = Some out'
                    \<Longrightarrow> ext k' st' (state_of out')"
    and entries: "\<And>st' out'. for_entries n srv api base k rest st' = Some out'
                    \<Longrightarrow> ext k st' (state_of out')"
  from run show "ext k st (state_of out)"
  proof (cases rule: for_entries_ConsE)
    case (pom_string s)
    then have "ext k st (append_pom e (log_event (Entry k e) st))"
      by (simp add: ext_entry_pom)
    with entries [OF pom_string(3)] show ?thesis by (rule ext_trans [rotated])
  next
    case (other_string s)
    then have "ext k st (log_event (Entry k e) st)" by (simp add: ext_entry)
    with entries [OF other_string(3)] show ?thesis by (rule ext_trans [rotated])
  next
    case (no_type d)
    then show ?thesis by (simp add: ext_entry)
  next
    case (dir_bad_path d err)
    then show ?thesis by (simp add: ext_entry)
  next
    case (dir_raised d p err st1)
    then have "ext k st (log_event (Entry k e) st)" by (simp add: ext_entry)
    moreover from search [OF dir_raised(4)] have "ext k (log_event (Entry k e) st) st1"
      by (simp add: ext_mono)
    ultimately show ?thesis using dir_raised(5) by (auto intro: ext_trans)
  next
    case (dir_returned d p st1)
    then have "ext k st (log_event (Entry k e) st)" by (simp add: ext_entry)
    moreover from search [OF dir_returned(4)] have "ext k (log_event (Entry k e) st) st1"
      by (simp add: ext_mono)
    ultimately have "ext k st st1" by (rule ext_trans)
    with entries [OF dir_returned(5)] show ?thesis by (rule ext_trans [rotated])
  next
    case (file_no_name d)
    then show ?thesis by (simp add: ext_entry)
  next
    case (pom_bad_path d err)
    then show ?thesis by (simp add: ext_entry)
  next
    case (pom d p)
    then have "ext k st (append_pom p (log_event (Entry k e) st))"
      by (simp add: ext_entry_pom)
    with entries [OF pom(5)] show ?thesis by (rule ext_trans [rotated])
  next
    case (other_file d name)
    then have "ext k st (log_event (Entry k e) st)" by (simp add: ext_entry)
    with entries [OF other_file(5)] show ?thesis by (rule ext_trans [rotated])
  next
    case (other_type d ty)
    then have "ext k st (log_event (Entry k e) st)" by (simp add: ext_entry)
    with entries [OF other_type(5)] show ?thesis by (rule ext_trans [rotated])
  next
    case other_value
    then have "ext k st (log_event (Entry k e) st)" by (simp add: ext_entry found_of_other)
    with entries [OF other_value(3)] show ?thesis by (rule ext_trans [rotated])
  qed
qed

lemma requests_of_append: "requests_of (xs @ ys) = requests_of xs @ requests_of ys"
  by (induction xs rule: requests_of.induct) auto

text \<open>
  More fuel does not change a result: a walk that ends with some fuel ends in the same
  way with any greater fuel, so \<open>None\<close> stands for a walk that has not ended yet and
  nothing else.
\<close>

lemma fuel_Suc:
  "(recursive_search n srv api base k st url = Some out
      \<longrightarrow> recursive_search (Suc n) srv api base k st url = Some out)
 \<and> (for_entries n srv api base k es st = Some out
      \<longrightarrow> for_entries (Suc n) srv api base k es st = Some out)"
proof (rule walk_induct [where P = "\<lambda>n k st url out. recursive_search (Suc n) srv api base k st url = Some out"
                          and Q = "\<lambda>n k es st out. for_entries (Suc n) srv api base k es st = Some out"])
  fix n k st url out
  assume run: "recursive_search (Suc n) srv api base k st url = Some out"
    and entries: "\<And>k' es st' out'. for_entries n srv api base k' es st' = Some out'
                    \<Longrightarrow> for_entries (Suc n) srv api base k' es st' = Some out'"
    and search: "\<And>k' st' url' out'. recursive_search n srv api base k' st' url' = Some out'
                    \<Longrightarrow> recursive_search (Suc n) srv api base k' st' url' = Some out'"
  from run show "recursive_search (Suc (Suc n)) srv api base k st url = Some out"
  proof (cases rule: recursive_search_SucE)
    case no_url
    then show ?thesis by simp
  next
    case (request_raised e)
    then show ?thesis by (simp add: Let_def)
  next
    case (not_a_dict v)
    then show ?thesis by (cases v) (simp_all add: Let_def)
  next
    case (not_iterable d e)
    then show ?thesis by (simp add: Let_def)
  next
    case (entries_raised d es e st2)
    with entries [OF entries_raised(4)] show ?thesis by (simp add: Let_def)
  next
    case (last_page d es st2)
    with entries [OF last_page(4)] show ?thesis by (simp add: Let_def)
  next
    case (next_page d es st2)
    with entries [OF next_page(4)] search [OF next_page(6)] show ?thesis
      by (simp add: Let_def)
  qed
next
  fix n :: nat and k st
  show "for_entries (Suc n) srv api base k [] st = Some (Returned st)" by simp
next
  fix n k e rest st out
  assume run: "for_entries n srv api base k (e # rest) st = Some out"
    and search: "\<And>k' st' url' out'. recursive_search n srv api base k' st' url' = Some out'
                    \<Longrightarrow> recursive_search (Suc n) srv api base k' st' url' = Some out'"
    and entries: "\<And>st' out'. for_entries n srv api base k rest st' = Some out'
                    \<Longrightarrow> for_entries (Suc n) srv api base k rest st' = Some out'"
  from run show "for_entries (Suc n) srv api base k (e # rest) st = Some out"
  proof (cases rule: for_entries_ConsE)
    case (pom_string s)
    with entries [OF pom_string(3)] show ?thesis by (simp add: Let_def)
  next
    case (other_string s)
    with entries [OF other_string(3)] show ?thesis by (simp add: Let_def)
  next
    case (no_type d)
    then show ?thesis by (simp add: Let_def)
  next
    case (dir_bad_path d err)
    then show ?thesis by (simp add: Let_def)
  next
    case (dir_raised d p err st1)
    with search [OF dir_raised(4)] show ?thesis by (simp add: Let_def)
  next
    case (dir_returned d p st1)
    with search [OF dir_returned(4)] entries [OF dir_returned(5)] show ?thesis
      by (simp add: Let_def)
  next
    case (file_no_name d)
    then show ?thesis by (simp add: Let_def)
  next
    case (pom_bad_path d err)
    then show ?thesis by (simp add: Let_def)
  next
    case (pom d p)
    with entries [OF pom(5)] show ?thesis by (simp add: Let_def)
  next
    case (other_file d name)
    with entries [OF other_file(5)] show ?thesis by (simp add: Let_def)
  next
    case (other_type d ty)
    with entries [OF other_type(5)] show ?thesis by (simp add: Let_def)
  next
    case other_value
    with entries [OF other_value(3)] show ?thesis by (cases e) (simp_all add: Let_def)
  qed
qed

lemma fuel_mono:
  "recursive_search n srv api base k st url = Some out
     \<Longrightarrow> recursive_search (n + m) srv api base k st url = Some out"
proof (induction m)
  case 0
  then show ?case by simp
next
  case (Suc m)
  then have "recursive_search (n + m) srv api base k st url = Some out" by simp
  with fuel_Suc [where n = "n + m" and srv = srv and api = api and base = base and k = k
      and st = st and url = url and out = out]
  have "recursive_search (Suc (n + m)) srv api base k st url = Some out" by blast
  then show ?case by (simp only: add_Suc_right)
qed

lemma find_pom_xml_in_repo_fuel_mono:
  "find_pom_xml_in_repo n srv evs api base = Some r
     \<Longrightarrow> find_pom_xml_in_repo (n + m) srv evs api base = Some r"
  by (auto simp: find_pom_xml_in_repo_def fuel_mono split: option.splits outcome.splits)

text \<open>
  The turn of the \<open>while\<close> loop after a page that is not the last: once the entries of
  the page are done, the search goes on at the same depth, from the state the entries
  left, with the URL made of \<open>api_url\<close> and the page's \<open>nextPageStart\<close>.
\<close>

lemma next_page_step:
  assumes "url \<noteq> []"
    and "get_repo_data srv (trace st) url = Inr (JObj d)"
    and "values_of d = Inr es"
    and "for_entries n srv api base k es (log_event (Request k url (Inr (JObj d))) st)
           = Some (Returned st2)"
    and "\<not> py_truthy (dict_get d ''isLastPage'')"
  shows "recursive_search (Suc n) srv api base k st url
           = recursive_search n srv api base k st2
               (api @ ''?start='' @ py_str (dict_get d ''nextPageStart''))"
  using assms by (simp add: Let_def)

text \<open>
  What does hold for a directory entry, whatever pages its call reads: the call made for
  it returns before the loop takes the next entry, everything it recorded lies at a
  greater depth, and the paths it found come before those of the later entries.
\<close>

lemma directory_call_completes_first:
  assumes "map_of d ''type'' = Some (JStr ''DIRECTORY'')"
    and "for_entries n srv api base k (JObj d # rest) st = Some (Returned st')"
  shows "\<exists>p st1. path_toString d = Inr p
          \<and> recursive_search n srv api base (Suc k) (log_event (Entry k (JObj d)) st)
                (base @ ''/'' @ py_str p) = Some (Returned st1)
          \<and> for_entries n srv api base k rest st1 = Some (Returned st')
          \<and> ext (Suc k) (log_event (Entry k (JObj d)) st) st1
          \<and> ext k st1 st'"
  using assms(2)
proof (cases rule: for_entries_ConsE)
  case (dir_returned d' p st1)
  from walk_ext_both [where n = n and srv = srv and api = api and base = base and k = "Suc k"
      and st = "log_event (Entry k (JObj d)) st" and url = "base @ ''/'' @ py_str p"
      and out = "Returned st1"] dir_returned(4)
  have a: "ext (Suc k) (log_event (Entry k (JObj d)) st) st1" by simp
  from walk_ext_both [where n = n and srv = srv and api = api and base = base and k = k
      and es = rest and st = st1 and out = "Returned st'"] dir_returned(5)
  have b: "ext k st1 st'" by simp
  from dir_returned a b show ?thesis by auto
qed (use assms(1) in auto)

section \<open>Claims about the walker\<close>

text \<open>
  C1. A page whose \<open>isLastPage\<close> is false is followed by a request for the next page.
  The claim says that this request goes to the listing URL of the directory being read,
  with \<open>start\<close> set to the page's \<open>nextPageStart\<close>. The walker builds the URL from
  \<open>api_url\<close>, the URL that \<open>find_pom_xml_in_repo\<close> was called with, whatever directory
  it is reading. On \<open>paged_srv\<close> the page of the subdirectory \<open>R/A\<close> says that it is not
  the last one and that the next starts at 1: the walker then requests \<open>R?start=1\<close>,
  a page of the root, where the claim has \<open>R/A?start=1\<close>.
\<close>

theorem next_page_request_uses_root_url:
  "map_option (\<lambda>(r, evs). requests_of evs) (find_pom_xml_in_repo 4 paged_srv [] ''R'' ''R'')
     = Some [''R'', ''R/A'', ''R?start=1'']"
  by code_simp

text \<open>
  C3. The claim says that the search of a subdirectory has read all the pages of that
  subdirectory before the parent's loop takes a later entry. On \<open>paged_srv\<close> the
  subdirectory \<open>R/A\<close> has a second page, which lists \<open>A/2/pom.xml\<close>. The walk returns,
  the later entry \<open>B/pom.xml\<close> of the root is taken and recorded, and the second page of
  \<open>R/A\<close> was never read: \<open>A/2/pom.xml\<close> is not among the entries taken nor in the
  result, while the call made for \<open>R/A\<close> took an entry of the root's page instead.
\<close>

theorem subdirectory_pages_not_drained:
  "map_option (\<lambda>(r, evs). (r, entries_of evs)) (find_pom_xml_in_repo 4 paged_srv [] ''R'' ''R'')
     = Some (Inr [JStr ''A/1/pom.xml'', JStr ''B/pom.xml'', JStr ''B/pom.xml''],
             [dir_entry ''A'', JStr ''A/1/pom.xml'', JStr ''B/pom.xml'', JStr ''B/pom.xml''])
   \<and> paged_srv [''R'', ''R/A''] ''R/A?start=1'' = Inr (page [JStr ''A/2/pom.xml''] True None)"
  by code_simp



text \<open>
  C10. An entry that is a dictionary whose \<open>type\<close> is neither \<open>DIRECTORY\<close> nor \<open>FILE\<close>,
  or that is neither a string nor a dictionary, is passed over: the loop goes on with the
  remaining entries from the same state, in which only the taking of the entry has been
  noted. No path has been added, no request has been made and nothing is raised for it.
\<close>

theorem other_entries_skipped:
  assumes "(\<exists>d ty. e = JObj d \<and> map_of d ''type'' = Some ty
              \<and> ty \<noteq> JStr ''DIRECTORY'' \<and> ty \<noteq> JStr ''FILE'')
         \<or> ((\<forall>s. e \<noteq> JStr s) \<and> (\<forall>d. e \<noteq> JObj d))"
  shows "for_entries n srv api_url base_url depth (e # rest) st
           = for_entries n srv api_url base_url depth rest (log_event (Entry depth e) st)
       \<and> pom_files (log_event (Entry depth e) st) = pom_files st
       \<and> requests_of (trace (log_event (Entry depth e) st)) = requests_of (trace st)"
proof (intro conjI)
  from assms
  show "for_entries n srv api_url base_url depth (e # rest) st
           = for_entries n srv api_url base_url depth rest (log_event (Entry depth e) st)"
  proof
    assume "\<exists>d ty. e = JObj d \<and> map_of d ''type'' = Some ty
              \<and> ty \<noteq> JStr ''DIRECTORY'' \<and> ty \<noteq> JStr ''FILE''"
    then obtain d ty where "e = JObj d" "map_of d ''type'' = Some ty"
      "ty \<noteq> JStr ''DIRECTORY''" "ty \<noteq> JStr ''FILE''" by blast
    then show ?thesis by (simp add: Let_def)
  next
    assume "(\<forall>s. e \<noteq> JStr s) \<and> (\<forall>d. e \<noteq> JObj d)"
    then show ?thesis by (cases e) (simp_all add: Let_def)
  qed
next
  show "pom_files (log_event (Entry depth e) st) = pom_files st"
    by (simp add: log_event_def)
next
  show "requests_of (trace (log_event (Entry depth e) st)) = requests_of (trace st)"
    by (simp add: log_event_def requests_of_append)
qed

theorem other_entries_skipped_witness:
  "for_entries 1 paged_srv ''R'' ''R'' 0
        [JObj [(''type'', JStr ''SUBMODULE''), (''name'', JStr ''pom.xml'')], JInt 3, JStr ''pom.xml'']
        \<lparr>pom_files = [], trace = []\<rparr>
      = Some (Returned \<lparr>pom_files = [JStr ''pom.xml''],
                        trace = [Entry 0 (JObj [(''type'', JStr ''SUBMODULE''), (''name'', JStr ''pom.xml'')]),
                                 Entry 0 (JInt 3),
                                 Entry 0 (JStr ''pom.xml'')]\<rparr>)"
proof -
  let ?e = "JObj [(''type'', JStr ''SUBMODULE''), (''name'', JStr ''pom.xml'')]"
  let ?st = "\<lparr>pom_files = [], trace = []\<rparr>"
  have h1: "(\<exists>d ty. ?e = JObj d
        \<and> map_of d ''type'' = Some ty \<and> ty \<noteq> JStr ''DIRECTORY'' \<and> ty \<noteq> JStr ''FILE'')
     \<or> ((\<forall>s. ?e \<noteq> JStr s) \<and> (\<forall>d. ?e \<noteq> JObj d))"
    by simp
  have h2: "(\<exists>d ty. JInt 3 = JObj d
        \<and> map_of d ''type'' = Some ty \<and> ty \<noteq> JStr ''DIRECTORY'' \<and> ty \<noteq> JStr ''FILE'')
     \<or> ((\<forall>s. JInt 3 \<noteq> JStr s) \<and> (\<forall>d. JInt 3 \<noteq> JObj d))"
    by simp
  have r: "for_entries 1 paged_srv ''R'' ''R'' 0 [JStr ''pom.xml'']
             (log_event (Entry 0 (JInt 3)) (log_event (Entry 0 ?e) ?st))
      = Some (Returned \<lparr>pom_files = [JStr ''pom.xml''],
                        trace = [Entry 0 ?e, Entry 0 (JInt 3), Entry 0 (JStr ''pom.xml'')]\<rparr>)"
    by code_simp
  from other_entries_skipped [OF h1, where n = 1 and srv = paged_srv and api_url = "''R''"
      and base_url = "''R''" and depth = 0 and rest = "[JInt 3, JStr ''pom.xml'']" and st = ?st]
  have a: "for_entries 1 paged_srv ''R'' ''R'' 0 [?e, JInt 3, JStr ''pom.xml''] ?st
         = for_entries 1 paged_srv ''R'' ''R'' 0 [JInt 3, JStr ''pom.xml'']
             (log_event (Entry 0 ?e) ?st)"
    by (rule conjunct1)
  from other_entries_skipped [OF h2, where n = 1 and srv = paged_srv and api_url = "''R''"
      and base_url = "''R''" and depth = 0 and rest = "[JStr ''pom.xml'']"
      and st = "log_event (Entry 0 ?e) ?st"]
  have b: "for_entries 1 paged_srv ''R'' ''R'' 0 [JInt 3, JStr ''pom.xml'']
             (log_event (Entry 0 ?e) ?st)
         = for_entries 1 paged_srv ''R'' ''R'' 0 [JStr ''pom.xml'']
             (log_event (Entry 0 (JInt 3)) (log_event (Entry 0 ?e) ?st))"
    by (rule conjunct1)
  from a b r show ?thesis by simp
qed

section \<open>Facts about the orchestrator\<close>

lemma tags_loop_distinct:
  "distinct (map fst vs) \<Longrightarrow> distinct (map fst (tags_loop c tags vs))"
  by (induction tags arbitrary: vs) (auto simp: Let_def distinct_update)

lemma extracted_item:
  assumes "find_version_tags_from_pom c tags = Some versions" and "(t, v) \<in> set versions"
  shows "t \<in> set tags \<and> (\<exists>i j. first_at c (start_tag t) i \<and> first_at c (end_tag t) j
            \<and> v = py_strip (between c (i + length (start_tag t)) j))"
proof -
  from assms(1) have vs: "versions = tags_loop c tags []"
    by (simp add: find_version_tags_from_pom_def Let_def split: if_splits)
  have "distinct (map fst versions)" unfolding vs by (rule tags_loop_distinct) simp
  with assms(2) have m: "map_of versions t = Some v" by simp
  then have f: "t \<in> set tags" "py_find c (start_tag t) \<noteq> - 1" "py_find c (end_tag t) \<noteq> - 1"
    unfolding vs tags_loop_map_of by (simp_all split: if_splits)
  then obtain i j where i: "first_at c (start_tag t) i" and j: "first_at c (end_tag t) j"
    using first_at_exists py_find_found by blast
  from m f have "v = py_strip (py_slice c (py_find c (start_tag t) + int (length (start_tag t)))
                                       (py_find c (end_tag t)))"
    unfolding vs tags_loop_map_of by simp
  with extracted_value [OF i j] have "v = py_strip (between c (i + length (start_tag t)) j)"
    by simp
  with f(1) i j show ?thesis by blast
qed

lemma first_markers_enclosed:
  assumes "first_at c (start_tag t) i" and "first_at c (end_tag t) j"
  shows "if i + length (start_tag t) \<le> j
         then enclosed c t (py_strip (between c (i + length (start_tag t)) j))
         else py_strip (between c (i + length (start_tag t)) j) = []"
proof (cases "i + length (start_tag t) \<le> j")
  case True
  from assms have o: "occurs_at c (start_tag t) i" "occurs_at c (end_tag t) j"
    by (simp_all add: first_at_def)
  then have ii: "i \<in> set [0..<Suc (length c)]" and jj: "j \<in> set [0..<Suc (length c)]"
    by (simp_all add: occurs_at_def del: upt_Suc)
  have "enclosed c t (py_strip (between c (i + length (start_tag t)) j))"
    unfolding enclosed_def
    by (rule bexI [OF _ ii], rule bexI [OF _ jj]) (use o True in simp)
  with True show ?thesis by simp
next
  case False
  then have "between c (i + length (start_tag t)) j = []" by (simp add: between_def)
  with False show ?thesis by (simp add: py_strip_def)
qed

lemma rows_of_result_row:
  assumes "row \<in> set (rows_of_result pk slug res)"
  shows "\<exists>f' versions t v. res = Some (f', versions) \<and> (t, v) \<in> set versions
           \<and> row = [JStr pk, JStr slug, f', JStr t, JStr v]"
proof (cases res)
  case None
  with assms show ?thesis by (simp add: rows_of_result_def)
next
  case (Some pr)
  obtain f' versions where pr: "pr = (f', versions)" by (cases pr)
  from assms Some pr
  have "row \<in> (\<lambda>(t, v). [JStr pk, JStr slug, f', JStr t, JStr v]) ` set versions"
    by (simp add: rows_of_result_def split: if_splits)
  then obtain tv where tv: "tv \<in> set versions"
    and row: "row = (\<lambda>(t, v). [JStr pk, JStr slug, f', JStr t, JStr v]) tv" by blast
  obtain t v where "tv = (t, v)" by (cases tv)
  with tv row Some pr show ?thesis by simp
qed

lemma fetch_and_parse_pom_Some:
  assumes "fetch_and_parse_pom raw pk slug f base tags = Some (f', versions)"
  shows "f' = f \<and> (\<exists>content. fetch_file_content raw pk slug f base = Inr content
            \<and> find_version_tags_from_pom content tags = Some versions)"
proof (cases "fetch_file_content raw pk slug f base")
  case (Inl e)
  with assms show ?thesis by (simp add: fetch_and_parse_pom_def)
next
  case (Inr content)
  show ?thesis
  proof (cases "find_version_tags_from_pom content tags")
    case None
    with assms Inr show ?thesis by (simp add: fetch_and_parse_pom_def)
  next
    case (Some vs)
    with assms Inr show ?thesis by (simp add: fetch_and_parse_pom_def split: if_splits)
  qed
qed

lemma repo_rows_row:
  assumes "row \<in> set (repo_rows raw pk slug base tags files)"
  shows "\<exists>f t content i j.
           row = [JStr pk, JStr slug, f, JStr t,
                  JStr (py_strip (between content (i + length (start_tag t)) j))]
         \<and> f \<in> set files \<and> t \<in> set tags
         \<and> fetch_file_content raw pk slug f base = Inr content
         \<and> first_at content (start_tag t) i \<and> first_at content (end_tag t) j"
proof -
  from assms obtain f where f: "f \<in> set files"
    and r: "row \<in> set (rows_of_result pk slug (fetch_and_parse_pom raw pk slug f base tags))"
    by (auto simp: repo_rows_def)
  from rows_of_result_row [OF r] obtain f' versions t v where
    res: "fetch_and_parse_pom raw pk slug f base tags = Some (f', versions)"
    and tv: "(t, v) \<in> set versions"
    and row: "row = [JStr pk, JStr slug, f', JStr t, JStr v]" by blast
  from fetch_and_parse_pom_Some [OF res] obtain content where ff: "f' = f"
    and c: "fetch_file_content raw pk slug f base = Inr content"
    and v: "find_version_tags_from_pom content tags = Some versions" by blast
  from extracted_item [OF v tv] obtain i j where "t \<in> set tags"
    "first_at content (start_tag t) i" "first_at content (end_tag t) j"
    "v = py_strip (between content (i + length (start_tag t)) j)" by blast
  with f c row ff show ?thesis by blast
qed


lemma scan_rows:
  assumes "scan n srv raw base tags repos s = Some s'"
    and "\<And>pk slug files row. (pk, slug) \<in> set repos
            \<Longrightarrow> row \<in> set (repo_rows raw pk slug base tags files) \<Longrightarrow> G row"
  shows "\<exists>new. csv s' = csv s @ new \<and> (\<forall>row \<in> set new. G row)"
  using assms
proof (induction repos arbitrary: s)
  case Nil
  then show ?case by simp
next
  case (Cons x rest)
  obtain pk slug where x: "x = (pk, slug)" by (cases x)
  have step: "G row" if "(pk, slug) \<in> set rest"
    "row \<in> set (repo_rows raw pk slug base tags files)" for pk slug files row
  proof (rule Cons.prems(2) [of pk slug row files])
    from that(1) show "(pk, slug) \<in> set (x # rest)" by simp
    from that(2) show "row \<in> set (repo_rows raw pk slug base tags files)" .
  qed
  from Cons.prems(1) obtain r evs where
    p: "process_repository n srv (history s) slug pk base = Some (r, evs)"
    unfolding x by (cases "process_repository n srv (history s) slug pk base") auto
  show ?case
  proof (cases r)
    case (Inl e)
    with Cons.prems(1) p
    have "scan n srv raw base tags rest
            (s\<lparr>stdout := stdout s @ [RepoError pk slug e], history := evs\<rparr>) = Some s'"
      unfolding x by simp
    then have "\<exists>new. csv s' = csv (s\<lparr>stdout := stdout s @ [RepoError pk slug e],
                                         history := evs\<rparr>) @ new
                       \<and> (\<forall>row \<in> set new. G row)"
      using Cons.IH step by metis
    then show ?thesis by simp
  next
    case (Inr files)
    let ?rows = "repo_rows raw pk slug base tags files"
    from Inr Cons.prems(1) p
    have "scan n srv raw base tags rest
            (s\<lparr>csv := csv s @ ?rows, stdout := stdout s @ [BlankLine], history := evs\<rparr>) = Some s'"
      unfolding x by simp
    then have "\<exists>new. csv s' = csv (s\<lparr>csv := csv s @ ?rows, stdout := stdout s @ [BlankLine],
                                         history := evs\<rparr>) @ new
                       \<and> (\<forall>row \<in> set new. G row)"
      using Cons.IH step by metis
    then obtain new where
      new: "csv s' = csv s @ ?rows @ new" "\<forall>row \<in> set new. G row" by auto
    have "G row" if "row \<in> set ?rows" for row
    proof (rule Cons.prems(2) [of pk slug row files])
      show "(pk, slug) \<in> set (x # rest)" by (simp add: x)
      from that show "row \<in> set ?rows" .
    qed
    then have "\<forall>row \<in> set ?rows. G row" by blast
    with new have "csv s' = csv s @ (?rows @ new) \<and> (\<forall>row \<in> set (?rows @ new). G row)"
      by auto
    then show ?thesis by blast
  qed
qed


section \<open>Claims about the orchestrator\<close>

text \<open>
  C2, as amended. Every row that a run adds to the report names a configured repository
  and a requested tag, and the content fetched for the row's file holds both markers of
  that tag. The row's value is the trimmed text of that content from the end of the first
  occurrence of the opening marker to the start of the first occurrence of the closing
  marker. When the first closing marker starts at or after that end, the value is the
  trimmed text enclosed by a pair of markers; otherwise it is the empty string.
\<close>

theorem report_rows_from_first_markers:
  assumes "scan n srv raw base_api_url version_tags repos s = Some s'"
  shows "\<exists>new. csv s' = csv s @ new
          \<and> (\<forall>row \<in> set new. \<exists>project_key repo_slug pom_file tag content i j.
                row = [JStr project_key, JStr repo_slug, pom_file, JStr tag,
                       JStr (py_strip (between content (i + length (start_tag tag)) j))]
              \<and> (project_key, repo_slug) \<in> set repos \<and> tag \<in> set version_tags
              \<and> fetch_file_content raw project_key repo_slug pom_file base_api_url = Inr content
              \<and> first_at content (start_tag tag) i \<and> first_at content (end_tag tag) j
              \<and> (if i + length (start_tag tag) \<le> j
                  then enclosed content tag (py_strip (between content (i + length (start_tag tag)) j))
                  else py_strip (between content (i + length (start_tag tag)) j) = []))"
proof (rule scan_rows [OF assms])
  fix pk slug files row
  assume repo: "(pk, slug) \<in> set repos"
    and row: "row \<in> set (repo_rows raw pk slug base_api_url version_tags files)"
  from repo_rows_row [OF row] obtain f t content i j where
    a: "row = [JStr pk, JStr slug, f, JStr t,
              JStr (py_strip (between content (i + length (start_tag t)) j))]"
    and b: "t \<in> set version_tags"
    and c: "fetch_file_content raw pk slug f base_api_url = Inr content"
    and d: "first_at content (start_tag t) i" and e: "first_at content (end_tag t) j" by blast
  note g = first_markers_enclosed [OF d e]
  show "\<exists>project_key repo_slug pom_file tag content i j.
                row = [JStr project_key, JStr repo_slug, pom_file, JStr tag,
                       JStr (py_strip (between content (i + length (start_tag tag)) j))]
              \<and> (project_key, repo_slug) \<in> set repos \<and> tag \<in> set version_tags
              \<and> fetch_file_content raw project_key repo_slug pom_file base_api_url = Inr content
              \<and> first_at content (start_tag tag) i \<and> first_at content (end_tag tag) j
              \<and> (if i + length (start_tag tag) \<le> j
                  then enclosed content tag (py_strip (between content (i + length (start_tag tag)) j))
                  else py_strip (between content (i + length (start_tag tag)) j) = [])"
    apply (rule exI [of _ pk], rule exI [of _ slug], rule exI [of _ f], rule exI [of _ t],
           rule exI [of _ content], rule exI [of _ i], rule exI [of _ j])
    apply (intro conjI)
          apply (rule a)
         apply (rule repo)
        apply (rule b)
       apply (rule c)
      apply (rule d)
     apply (rule e)
    apply (rule g)
    done
qed

theorem report_rows_from_first_markers_witness:
  "scan 2 demo_srv demo_raw ''B'' [''v''] [(''P'', ''r'')] start_state
     = Some \<lparr>csv = [[JStr ''P'', JStr ''r'', JStr ''pom.xml'', JStr ''v'', JStr ''1.0''],
                     [JStr ''P'', JStr ''r'', JStr ''k/pom.xml'', JStr ''v'', JStr '''']],
              stdout = [BlankLine],
              history = [Request 0 ''B/projects/P/repos/r/files''
                           (Inr (page [JStr ''pom.xml'', JStr ''m/pom.xml'', JStr ''k/pom.xml'']
                                   True None)),
                         Entry 0 (JStr ''pom.xml''), Entry 0 (JStr ''m/pom.xml''),
                         Entry 0 (JStr ''k/pom.xml'')]\<rparr>
   \<and> (\<exists>new. [[JStr ''P'', JStr ''r'', JStr ''pom.xml'', JStr ''v'', JStr ''1.0''],
              [JStr ''P'', JStr ''r'', JStr ''k/pom.xml'', JStr ''v'', JStr '''']]
             = csv start_state @ new
          \<and> (\<forall>row \<in> set new. \<exists>project_key repo_slug pom_file tag content i j.
                row = [JStr project_key, JStr repo_slug, pom_file, JStr tag,
                       JStr (py_strip (between content (i + length (start_tag tag)) j))]
              \<and> (project_key, repo_slug) \<in> set [(''P'', ''r'')] \<and> tag \<in> set [''v'']
              \<and> fetch_file_content demo_raw project_key repo_slug pom_file ''B'' = Inr content
              \<and> first_at content (start_tag tag) i \<and> first_at content (end_tag tag) j
              \<and> (if i + length (start_tag tag) \<le> j
                  then enclosed content tag (py_strip (between content (i + length (start_tag tag)) j))
                  else py_strip (between content (i + length (start_tag tag)) j) = [])))"
proof -
  have h: "scan 2 demo_srv demo_raw ''B'' [''v''] [(''P'', ''r'')] start_state
     = Some \<lparr>csv = [[JStr ''P'', JStr ''r'', JStr ''pom.xml'', JStr ''v'', JStr ''1.0''],
                     [JStr ''P'', JStr ''r'', JStr ''k/pom.xml'', JStr ''v'', JStr '''']],
              stdout = [BlankLine],
              history = [Request 0 ''B/projects/P/repos/r/files''
                           (Inr (page [JStr ''pom.xml'', JStr ''m/pom.xml'', JStr ''k/pom.xml'']
                                   True None)),
                         Entry 0 (JStr ''pom.xml''), Entry 0 (JStr ''m/pom.xml''),
                         Entry 0 (JStr ''k/pom.xml'')]\<rparr>"
    by code_simp
  from report_rows_from_first_markers [OF h] h show ?thesis by simp
qed

text \<open>
  C2 as stated fails. The content \<open></v><v>1</v>\<close> fetched for \<open>k/pom.xml\<close> gives the row
  with the tag \<open>v\<close> and the empty value, and no opening marker of \<open>v\<close> in that content is
  followed by a closing marker with only whitespace in between: the one pair encloses
  \<open>1\<close>.
\<close>

theorem written_value_not_enclosed:
  "map_option csv (scan 2 demo_srv demo_raw ''B'' [''v''] [(''P'', ''r'')] start_state)
     = Some [[JStr ''P'', JStr ''r'', JStr ''pom.xml'', JStr ''v'', JStr ''1.0''],
             [JStr ''P'', JStr ''r'', JStr ''k/pom.xml'', JStr ''v'', JStr '''']]
   \<and> fetch_file_content demo_raw ''P'' ''r'' (JStr ''k/pom.xml'') ''B'' = Inr ''</v><v>1</v>''
   \<and> \<not> enclosed ''</v><v>1</v>'' ''v'' ''''"
  by code_simp



text \<open>
  C9. When the fetch of a discovered file raises, its task returns \<open>None\<close>. The rows
  written for the repository are then the rows of the files before it followed by the
  rows of the files after it, and the results of the other tasks are what they are
  without it.
\<close>

theorem failed_fetch_gives_no_rows:
  assumes "fetch_file_content raw project_key repo_slug pom_file base_api_url = Inl e"
  shows "fetch_and_parse_pom raw project_key repo_slug pom_file base_api_url version_tags = None
       \<and> repo_rows raw project_key repo_slug base_api_url version_tags (before @ pom_file # after)
           = repo_rows raw project_key repo_slug base_api_url version_tags before
             @ repo_rows raw project_key repo_slug base_api_url version_tags after
       \<and> map (\<lambda>f. fetch_and_parse_pom raw project_key repo_slug f base_api_url version_tags)
             (before @ pom_file # after)
           = map (\<lambda>f. fetch_and_parse_pom raw project_key repo_slug f base_api_url version_tags) before
             @ None
             # map (\<lambda>f. fetch_and_parse_pom raw project_key repo_slug f base_api_url version_tags) after"
  using assms by (simp add: fetch_and_parse_pom_def repo_rows_def rows_of_result_def)

theorem failed_fetch_gives_no_rows_witness:
  "fetch_file_content demo_raw ''P'' ''r'' (JStr ''m/pom.xml'') ''B'' = Inl (HTTPError 404)
   \<and> fetch_and_parse_pom demo_raw ''P'' ''r'' (JStr ''m/pom.xml'') ''B'' [''v''] = None
   \<and> repo_rows demo_raw ''P'' ''r'' ''B'' [''v'']
        ([JStr ''pom.xml''] @ JStr ''m/pom.xml'' # [JStr ''k/pom.xml''])
       = [[JStr ''P'', JStr ''r'', JStr ''pom.xml'', JStr ''v'', JStr ''1.0''],
          [JStr ''P'', JStr ''r'', JStr ''k/pom.xml'', JStr ''v'', JStr '''']]"
proof -
  have h: "fetch_file_content demo_raw ''P'' ''r'' (JStr ''m/pom.xml'') ''B'' = Inl (HTTPError 404)"
    by code_simp
  have a: "repo_rows demo_raw ''P'' ''r'' ''B'' [''v''] [JStr ''pom.xml'']
             = [[JStr ''P'', JStr ''r'', JStr ''pom.xml'', JStr ''v'', JStr ''1.0'']]"
    by code_simp
  have b: "repo_rows demo_raw ''P'' ''r'' ''B'' [''v''] [JStr ''k/pom.xml'']
             = [[JStr ''P'', JStr ''r'', JStr ''k/pom.xml'', JStr ''v'', JStr '''']]"
    by code_simp
  from failed_fetch_gives_no_rows [OF h, where version_tags = "[''v'']"
      and before = "[JStr ''pom.xml'']" and after = "[JStr ''k/pom.xml'']"]
    a b h
  show ?thesis by simp
qed

end
